theory Spec2Isabelle
  imports Main
begin

section \<open>Data model\<close>

text \<open>
  The board validation engine of the crossword game.  The solver module imports
  \<^verbatim>\<open>Board\<close>, \<^verbatim>\<open>Tile\<close> and \<^verbatim>\<open>TileState\<close> from
  \<^verbatim>\<open>./game\<close>; the shapes below are read off the way the solver and the hooks use
  them (\<^verbatim>\<open>{ id, row, col, letter }\<close> in \<^verbatim>\<open>initalizeBoard\<close>,
  \<^verbatim>\<open>tile.letter?.letter\<close>, \<^verbatim>\<open>tile.state\<close>, \<^verbatim>\<open>board.cursor\<close>).

  Field names follow the source; where two object types share a field name the
  second one carries a prefix (\<^verbatim>\<open>Letter.id\<close> is \<open>letter_id\<close>, \<^verbatim>\<open>Letter.letter\<close> is
  \<open>letter_char\<close>, \<^verbatim>\<open>Tile.id\<close> is \<open>tile_id\<close>, \<^verbatim>\<open>WordFromTile.row\<close> is \<open>word_row\<close>).
  Row and column numbers are array indices, hence natural numbers.  A JavaScript
  string is a list of characters; the type of the cursor is left open.

  Objects are modelled by their field values: a \<^verbatim>\<open>Set\<close> of \<^verbatim>\<open>Tile\<close> or
  \<^verbatim>\<open>Letter\<close> objects is a set of records.  The data model gives every tile and every
  letter a unique id, so two distinct objects never agree on all fields.
\<close>

datatype TileState = IDLE | VALID | INVALID | MIXED

datatype WordDirection = LeftToRight | TopToBottom

datatype error = TypeError

record Letter =
  letter_id :: string
  letter_char :: string

record Tile =
  tile_id :: string
  row :: nat
  col :: nat
  letter :: "Letter option"
  state :: TileState

record 'c Board =
  cursor :: 'c
  tiles :: "Tile list list"

record WordFromTile =
  word :: string
  word_row :: nat
  word_col :: nat
  direction :: WordDirection

text \<open>
  \<^verbatim>\<open>xs[i]\<close> in JavaScript is \<^verbatim>\<open>undefined\<close> out of range; reading a property of
  \<^verbatim>\<open>undefined\<close> (or writing one) throws a \<^verbatim>\<open>TypeError\<close>.
\<close>

definition at :: "'a list \<Rightarrow> nat \<Rightarrow> 'a option" where
  "at xs i = (if i < length xs then Some (xs ! i) else None)"

text \<open>\<^verbatim>\<open>tiles[r][c]\<close>: \<open>None\<close> stands for the \<^verbatim>\<open>TypeError\<close> of indexing an undefined row
  as well as for an undefined element, whose fields the callers read at once.\<close>

definition at2 :: "'a list list \<Rightarrow> nat \<Rightarrow> nat \<Rightarrow> 'a option" where
  "at2 xss r c = (case at xss r of None \<Rightarrow> None | Some xs \<Rightarrow> at xs c)"

section \<open>Word extraction\<close>

text \<open>\<^verbatim>\<open>tile.letter?.letter\<close>: \<open>None\<close> is \<^verbatim>\<open>undefined\<close>.\<close>

definition charOf :: "Tile \<Rightarrow> string option" where
  "charOf tile = map_option letter_char (letter tile)"

text \<open>Truthiness of a value of type \<^verbatim>\<open>string | undefined\<close>: the empty string is falsy.\<close>

definition truthy :: "string option \<Rightarrow> bool" where
  "truthy ch = (case ch of None \<Rightarrow> False | Some s \<Rightarrow> s \<noteq> [])"

text \<open>
  \<^verbatim>\<open>String.prototype.toLowerCase\<close> on the ASCII letters; every other character is
  kept.  (Outside ASCII the JavaScript function can change the length of a string;
  the letters of this game are the 26 Latin capitals.)
\<close>

definition toLowerCase_char :: "char \<Rightarrow> char" where
  "toLowerCase_char ch =
     (let n = (of_char ch :: nat) in if 65 \<le> n \<and> n \<le> 90 then char_of (n + 32) else ch)"

definition toLowerCase :: "string \<Rightarrow> string" where
  "toLowerCase s = map toLowerCase_char s"

text \<open>
  The body of the scanning loop, the same in both extractors but for the direction
  tag: the state is the array \<^verbatim>\<open>words\<close> and the variable \<^verbatim>\<open>current\<close>.
\<close>

fun scanTile :: "WordDirection \<Rightarrow> WordFromTile list \<times> WordFromTile option \<Rightarrow> Tile
    \<Rightarrow> WordFromTile list \<times> WordFromTile option" where
  "scanTile d (words, current) tile =
     (let ch = charOf tile in
      case current of
        None \<Rightarrow>
          if truthy ch
          then (words, Some \<lparr>word = the ch, word_row = row tile, word_col = col tile, direction = d\<rparr>)
          else (words, None)
      | Some cur \<Rightarrow>
          if truthy ch
          then (words, Some (cur\<lparr>word := word cur @ the ch\<rparr>))
          else (words @ [cur], None))"

text \<open>Flush the \<^verbatim>\<open>current\<close> word after a line.\<close>

fun flush :: "WordFromTile list \<times> WordFromTile option \<Rightarrow> WordFromTile list" where
  "flush (words, None) = words"
| "flush (words, Some cur) = words @ [cur]"

text \<open>\<^verbatim>\<open>.filter((word) => word.word.length > 1).map(... toLowerCase())\<close>\<close>

definition finishWords :: "WordFromTile list \<Rightarrow> WordFromTile list" where
  "finishWords ws =
     map (\<lambda>w. w\<lparr>word := toLowerCase (word w)\<rparr>) (filter (\<lambda>w. length (word w) > 1) ws)"

definition scanRow :: "Tile list \<Rightarrow> WordFromTile list" where
  "scanRow rw = flush (foldl (scanTile LeftToRight) ([], None) rw)"

definition getWordsFromTilesLTR :: "Tile list list \<Rightarrow> WordFromTile list" where
  "getWordsFromTilesLTR ts = finishWords (concat (map scanRow ts))"

text \<open>The inner loop of the column scan, \<^verbatim>\<open>for (let r = 0; r < tiles.length; r++)\<close>, over
  the rows still to visit; \<^verbatim>\<open>tiles[r][c]\<close> is undefined in a row shorter than \<open>c\<close>.\<close>

fun scanColumn :: "nat \<Rightarrow> Tile list list \<Rightarrow> WordFromTile list \<times> WordFromTile option
    \<Rightarrow> error + WordFromTile list \<times> WordFromTile option" where
  "scanColumn c [] st = Inr st"
| "scanColumn c (rw # rest) st =
     (case at rw c of
        None \<Rightarrow> Inl TypeError
      | Some tile \<Rightarrow> scanColumn c rest (scanTile TopToBottom st tile))"

text \<open>The outer loop, \<^verbatim>\<open>for (let c = 0; c < tiles[0].length; c++)\<close>, over the columns
  still to visit.\<close>

fun scanColumns :: "Tile list list \<Rightarrow> nat list \<Rightarrow> WordFromTile list \<Rightarrow> error + WordFromTile list" where
  "scanColumns ts [] words = Inr words"
| "scanColumns ts (c # cs) words =
     (case scanColumn c ts (words, None) of
        Inl e \<Rightarrow> Inl e
      | Inr st \<Rightarrow> scanColumns ts cs (flush st))"

definition getWordsFromTilesTTB :: "Tile list list \<Rightarrow> error + WordFromTile list" where
  "getWordsFromTilesTTB ts =
     (case at ts 0 of
        None \<Rightarrow> Inl TypeError
      | Some row0 \<Rightarrow>
          (case scanColumns ts [0..<length row0] [] of
             Inl e \<Rightarrow> Inl e
           | Inr words \<Rightarrow> Inr (finishWords words)))"

section \<open>Board validation\<close>

text \<open>\<^verbatim>\<open>tile.letter ? { ...tile, state: INVALID } : { ...tile, state: IDLE }\<close>: a letter
  object is truthy, \<^verbatim>\<open>null\<close> is not.\<close>

definition initTile :: "Tile \<Rightarrow> Tile" where
  "initTile tile = (if letter tile \<noteq> None then tile\<lparr>state := INVALID\<rparr> else tile\<lparr>state := IDLE\<rparr>)"

text \<open>The two assignments of the passes, as functions of the tile's current state.\<close>

definition markValid :: "TileState \<Rightarrow> TileState" where
  "markValid s = VALID"

definition demote :: "TileState \<Rightarrow> TileState" where
  "demote s = (if s = VALID then INVALID else s)"

text \<open>\<^verbatim>\<open>const tile = validatedBoard.tiles[r][c]; tile.state = f(tile.state)\<close>.  The tiles of
  \<^verbatim>\<open>validatedBoard\<close> are the fresh objects of the spread, one for each position.\<close>

definition writeState :: "(TileState \<Rightarrow> TileState) \<Rightarrow> Tile list list \<Rightarrow> nat \<Rightarrow> nat
    \<Rightarrow> error + Tile list list" where
  "writeState f ts r c =
     (case at2 ts r c of
        None \<Rightarrow> Inl TypeError
      | Some tile \<Rightarrow> Inr (ts[r := (ts ! r)[c := tile\<lparr>state := f (state tile)\<rparr>]]))"

text \<open>\<^verbatim>\<open>for (let c = 0; c < length; c++)\<close> of the \<^verbatim>\<open>LeftToRight\<close> case, over the values of
  \<open>c\<close> still to visit.\<close>

fun loopLTR :: "(TileState \<Rightarrow> TileState) \<Rightarrow> WordFromTile \<Rightarrow> Tile list list \<Rightarrow> nat list
    \<Rightarrow> error + Tile list list" where
  "loopLTR f w ts [] = Inr ts"
| "loopLTR f w ts (c # cs) =
     (case writeState f ts (word_row w) (word_col w + c) of
        Inl e \<Rightarrow> Inl e
      | Inr ts' \<Rightarrow> loopLTR f w ts' cs)"

text \<open>\<^verbatim>\<open>for (let r = 0; r < length; r++)\<close> of the \<^verbatim>\<open>TopToBottom\<close> case, with its guard
  \<^verbatim>\<open>if (word.row + r > gridBounds - 1) continue\<close>.\<close>

fun loopTTB :: "(TileState \<Rightarrow> TileState) \<Rightarrow> nat \<Rightarrow> WordFromTile \<Rightarrow> Tile list list \<Rightarrow> nat list
    \<Rightarrow> error + Tile list list" where
  "loopTTB f gridBounds w ts [] = Inr ts"
| "loopTTB f gridBounds w ts (r # rs) =
     (if int (word_row w + r) > int gridBounds - 1 then loopTTB f gridBounds w ts rs
      else
        (case writeState f ts (word_row w + r) (word_col w) of
           Inl e \<Rightarrow> Inl e
         | Inr ts' \<Rightarrow> loopTTB f gridBounds w ts' rs))"

definition markWord :: "(TileState \<Rightarrow> TileState) \<Rightarrow> nat \<Rightarrow> Tile list list \<Rightarrow> WordFromTile
    \<Rightarrow> error + Tile list list" where
  "markWord f gridBounds ts w =
     (case direction w of
        LeftToRight \<Rightarrow> loopLTR f w ts [0..<length (word w)]
      | TopToBottom \<Rightarrow> loopTTB f gridBounds w ts [0..<length (word w)])"

text \<open>\<^verbatim>\<open>for (const word of ...)\<close> of a pass.\<close>

fun markWords :: "(TileState \<Rightarrow> TileState) \<Rightarrow> nat \<Rightarrow> Tile list list \<Rightarrow> WordFromTile list
    \<Rightarrow> error + Tile list list" where
  "markWords f gridBounds ts [] = Inr ts"
| "markWords f gridBounds ts (w # ws) =
     (case markWord f gridBounds ts w of
        Inl e \<Rightarrow> Inl e
      | Inr ts' \<Rightarrow> markWords f gridBounds ts' ws)"

text \<open>The module constant \<^verbatim>\<open>dictionary\<close> (a \<^verbatim>\<open>Set\<close> of strings imported from
  \<^verbatim>\<open>../constants/words\<close>) is the parameter \<open>dictionary\<close>.\<close>

definition foundWords :: "Tile list list \<Rightarrow> error + WordFromTile list" where
  "foundWords ts =
     (let leftToRight = getWordsFromTilesLTR ts in
      case getWordsFromTilesTTB ts of
        Inl e \<Rightarrow> Inl e
      | Inr topToBottom \<Rightarrow> Inr (leftToRight @ topToBottom))"

definition validateBoard :: "string set \<Rightarrow> 'c Board \<Rightarrow> error + ('c Board \<times> bool)" where
  "validateBoard dictionary board =
     (let ts = tiles board;
          gridBounds = length ts
      in case foundWords ts of
        Inl e \<Rightarrow> Inl e
      | Inr found \<Rightarrow>
          (let allWordsAreValid = list_all (\<lambda>w. word w \<in> dictionary) found;
               validated = map (map initTile) ts;
               validFoundWords = filter (\<lambda>w. word w \<in> dictionary) found
           in case markWords markValid gridBounds validated validFoundWords of
             Inl e \<Rightarrow> Inl e
           | Inr marked \<Rightarrow>
               (let invalidFoundWords = filter (\<lambda>w. word w \<notin> dictionary) found
                in case markWords demote gridBounds marked invalidFoundWords of
                  Inl e \<Rightarrow> Inl e
                | Inr demoted \<Rightarrow>
                    Inr (\<lparr>cursor = cursor board, tiles = demoted\<rparr>, allWordsAreValid))))"

section \<open>Counting\<close>

definition countFilledTiles :: "Tile list list \<Rightarrow> nat" where
  "countFilledTiles ts = card (set (filter (\<lambda>l. l \<noteq> None) (concat (map (map letter) ts))))"

definition countValidTiles :: "Tile list list \<Rightarrow> nat" where
  "countValidTiles ts =
     card (set (concat (map (\<lambda>rw. map tile_id (filter (\<lambda>tile. state tile = VALID \<or> state tile = MIXED) rw)) ts)))"

definition countLettersOnBoard :: "'c Board \<Rightarrow> nat" where
  "countLettersOnBoard board = countFilledTiles (tiles board)"

definition countValidLettersOnBoard :: "'c Board \<Rightarrow> nat" where
  "countValidLettersOnBoard board = countValidTiles (tiles board)"

section \<open>Connectivity check\<close>

text \<open>
  One of the four neighbour blocks of \<^verbatim>\<open>markTilesDFS\<close>:
  \<^verbatim>\<open>if (guard) { const tile = tiles[r][c];
     if (tile.letter !== null && !visitedTiles.has(tile)) markTilesDFS(tile); }\<close>
  with the recursive function as the parameter \<open>dfs\<close>.  Reading \<^verbatim>\<open>.letter\<close> of an
  undefined tile throws.
\<close>

definition visitIf :: "bool \<Rightarrow> Tile list list \<Rightarrow> nat \<Rightarrow> nat
    \<Rightarrow> (Tile option \<Rightarrow> Tile set \<Rightarrow> error + Tile set) \<Rightarrow> Tile set \<Rightarrow> error + Tile set" where
  "visitIf guard ts r c dfs visitedTiles =
     (if guard
      then (case at2 ts r c of
              None \<Rightarrow> Inl TypeError
            | Some tile \<Rightarrow>
                if letter tile \<noteq> None \<and> tile \<notin> visitedTiles
                then dfs (Some tile) visitedTiles
                else Inr visitedTiles)
      else Inr visitedTiles)"

lemma visitIf_cong [fundef_cong]:
  "guard = guard' \<Longrightarrow> ts = ts' \<Longrightarrow> r = r' \<Longrightarrow> c = c' \<Longrightarrow> v = v' \<Longrightarrow>
   (\<And>t. guard' \<Longrightarrow> at2 ts' r' c' = Some t \<Longrightarrow> letter t \<noteq> None \<Longrightarrow> t \<notin> v'
      \<Longrightarrow> dfs (Some t) v' = dfs' (Some t) v') \<Longrightarrow>
   visitIf guard ts r c dfs v = visitIf guard' ts' r' c' dfs' v'"
  by (auto simp: visitIf_def split: option.splits)

text \<open>
  The closure \<^verbatim>\<open>markTilesDFS\<close>.  Its free variables \<^verbatim>\<open>tiles\<close>, \<^verbatim>\<open>maxRow\<close> and
  \<^verbatim>\<open>maxCol\<close> are parameters; the set \<^verbatim>\<open>visitedTiles\<close>, which the closure updates in
  place, is passed in and returned.  The parameter of type \<^verbatim>\<open>Tile | null\<close> is a
  \<open>Tile option\<close>.
\<close>

function markTilesDFS :: "Tile list list \<Rightarrow> nat \<Rightarrow> nat \<Rightarrow> Tile option \<Rightarrow> Tile set
    \<Rightarrow> error + Tile set" where
  "markTilesDFS ts maxRow maxCol None visitedTiles = Inr visitedTiles"
| "markTilesDFS ts maxRow maxCol (Some tile) visitedTiles =
     (if tile \<in> visitedTiles then Inr visitedTiles
      else
        (case visitIf (row tile > 0) ts (row tile - 1) (col tile)
                (markTilesDFS ts maxRow maxCol) (insert tile visitedTiles) of
           Inl e \<Rightarrow> Inl e
         | Inr v1 \<Rightarrow>
        (case visitIf (col tile > 0) ts (row tile) (col tile - 1)
                (markTilesDFS ts maxRow maxCol) v1 of
           Inl e \<Rightarrow> Inl e
         | Inr v2 \<Rightarrow>
        (case visitIf (int (row tile) < int maxRow - 1) ts (row tile + 1) (col tile)
                (markTilesDFS ts maxRow maxCol) v2 of
           Inl e \<Rightarrow> Inl e
         | Inr v3 \<Rightarrow>
              visitIf (int (col tile) < int maxCol - 1) ts (row tile) (col tile + 1)
                (markTilesDFS ts maxRow maxCol) v3))))"
  by pat_completeness auto

text \<open>The recursion ends: the visited set only grows, and every call but the first is
  on a tile of the grid that is not yet in it.\<close>

lemma visitIf_mono:
  assumes "visitIf g ts r c dfs v = Inr v'"
    and "\<And>t. g \<Longrightarrow> at2 ts r c = Some t \<Longrightarrow> letter t \<noteq> None \<Longrightarrow> t \<notin> v
           \<Longrightarrow> dfs (Some t) v = Inr v' \<Longrightarrow> v \<subseteq> v'"
  shows "v \<subseteq> v'"
  using assms by (auto simp: visitIf_def split: if_splits option.splits)

lemma markTilesDFS_dom_mono:
  "markTilesDFS_dom (ts, mr, mc, t, v) \<Longrightarrow> markTilesDFS ts mr mc t v = Inr v' \<Longrightarrow> v \<subseteq> v'"
proof (induction ts mr mc t v arbitrary: v' rule: markTilesDFS.pinduct)
  case (1 ts maxRow maxCol visitedTiles)
  then show ?case by (simp add: markTilesDFS.psimps)
next
  case (2 ts maxRow maxCol tile visitedTiles)
  show ?case
  proof (cases "tile \<in> visitedTiles")
    case True
    with 2(1,6) show ?thesis by (simp add: markTilesDFS.psimps)
  next
    case False
    from 2(1,6) False obtain v1 v2 v3 where
      s1: "visitIf (row tile > 0) ts (row tile - 1) (col tile)
             (markTilesDFS ts maxRow maxCol) (insert tile visitedTiles) = Inr v1"
      and s2: "visitIf (col tile > 0) ts (row tile) (col tile - 1)
             (markTilesDFS ts maxRow maxCol) v1 = Inr v2"
      and s3: "visitIf (int (row tile) < int maxRow - 1) ts (row tile + 1) (col tile)
             (markTilesDFS ts maxRow maxCol) v2 = Inr v3"
      and s4: "visitIf (int (col tile) < int maxCol - 1) ts (row tile) (col tile + 1)
             (markTilesDFS ts maxRow maxCol) v3 = Inr v'"
      by (auto simp: markTilesDFS.psimps split: sum.splits)
    have m1: "insert tile visitedTiles \<subseteq> v1"
      by (rule visitIf_mono [OF s1]) (rule 2(2) [OF False], auto)
    have m2: "v1 \<subseteq> v2"
      by (rule visitIf_mono [OF s2]) (rule 2(3) [OF False s1], auto)
    have m3: "v2 \<subseteq> v3"
      by (rule visitIf_mono [OF s3]) (rule 2(4) [OF False s1 s2], auto)
    have m4: "v3 \<subseteq> v'"
      by (rule visitIf_mono [OF s4]) (rule 2(5) [OF False s1 s2 s3], auto)
    from m1 m2 m3 m4 show ?thesis by blast
  qed
qed

lemma at2_in_grid: "at2 ts r c = Some t \<Longrightarrow> t \<in> set (concat ts)"
  by (auto simp: at2_def at_def split: if_splits intro!: bexI [of _ "ts ! r"])

lemma dfs_measure:
  assumes "tile \<notin> visitedTiles" "insert tile visitedTiles \<subseteq> b" "t \<in> set (concat ts)"
  shows "card (set (concat ts) \<union> set_option (Some t) - b)
       < card (set (concat ts) \<union> set_option (Some tile) - visitedTiles)"
proof (rule psubset_card_mono)
  show "finite (set (concat ts) \<union> set_option (Some tile) - visitedTiles)" by simp
  show "set (concat ts) \<union> set_option (Some t) - b
      \<subset> set (concat ts) \<union> set_option (Some tile) - visitedTiles"
    using assms by auto
qed

termination markTilesDFS
proof (relation "measure (\<lambda>(ts, mr, mc, t, v). card ((set (concat ts) \<union> set_option t) - v))",
    goal_cases)
  case 1
  show ?case by simp
next
  case (2 ts maxRow maxCol tile visitedTiles t)
  then show ?case
    using dfs_measure [of tile visitedTiles "insert tile visitedTiles" t ts]
      at2_in_grid [of ts _ _ t] by simp
next
  case (3 ts maxRow maxCol tile visitedTiles b t)
  have "insert tile visitedTiles \<subseteq> b"
    by (rule visitIf_mono [OF 3(2)]) (rule markTilesDFS_dom_mono, rule 3(7), auto)
  with 3 show ?case
    using dfs_measure [of tile visitedTiles b t ts] at2_in_grid [of ts _ _ t] by simp
next
  case (4 ts maxRow maxCol tile visitedTiles b ba t)
  have "insert tile visitedTiles \<subseteq> b"
    by (rule visitIf_mono [OF 4(2)]) (rule markTilesDFS_dom_mono, rule 4(9), auto)
  moreover have "b \<subseteq> ba"
    by (rule visitIf_mono [OF 4(3)]) (rule markTilesDFS_dom_mono, rule 4(8), auto)
  ultimately have "insert tile visitedTiles \<subseteq> ba" by blast
  with 4 show ?case
    using dfs_measure [of tile visitedTiles ba t ts] at2_in_grid [of ts _ _ t] by simp
next
  case (5 ts maxRow maxCol tile visitedTiles b ba bb t)
  have "insert tile visitedTiles \<subseteq> b"
    by (rule visitIf_mono [OF 5(2)]) (rule markTilesDFS_dom_mono, rule 5(11), auto)
  moreover have "b \<subseteq> ba"
    by (rule visitIf_mono [OF 5(3)]) (rule markTilesDFS_dom_mono, rule 5(10), auto)
  moreover have "ba \<subseteq> bb"
    by (rule visitIf_mono [OF 5(4)]) (rule markTilesDFS_dom_mono, rule 5(9), auto)
  ultimately have "insert tile visitedTiles \<subseteq> bb" by blast
  with 5 show ?case
    using dfs_measure [of tile visitedTiles bb t ts] at2_in_grid [of ts _ _ t] by simp
qed

declare markTilesDFS.simps [simp del]

text \<open>\<^verbatim>\<open>findAnyTile\<close>: the first tile with a letter, rows in order and tiles in order
  within a row.\<close>

definition findAnyTile :: "Tile list list \<Rightarrow> Tile option" where
  "findAnyTile ts = find (\<lambda>tile. letter tile \<noteq> None) (concat ts)"

definition validateWordIsland :: "'c Board \<Rightarrow> error + bool" where
  "validateWordIsland board =
     (let ts = tiles board;
          maxRow = length ts
      in case at ts 0 of
        None \<Rightarrow> Inl TypeError
      | Some row0 \<Rightarrow>
          (let maxCol = length row0;
               total = countFilledTiles ts
           in case findAnyTile ts of
             None \<Rightarrow> Inr False
           | Some startingTile \<Rightarrow>
               (case markTilesDFS ts maxRow maxCol (Some startingTile) {} of
                  Inl e \<Rightarrow> Inl e
                | Inr visitedTiles \<Rightarrow> Inr (card visitedTiles = total))))"

section \<open>The caller\<close>

text \<open>
  \<^verbatim>\<open>requestFinish\<close> of the \<^verbatim>\<open>useGame\<close> hook.  The state it acts on is the board held by
  the \<^verbatim>\<open>useBoard\<close> hook and the console, to which \<^verbatim>\<open>console.info\<close> appends a line.
  The \<^verbatim>\<open>useBoard\<close> hook at hand returns no \<^verbatim>\<open>setBoard\<close>; what \<^verbatim>\<open>setBoard\<close> does to the
  state is therefore the parameter \<open>setBoard\<close>, about which nothing is assumed.
\<close>

record 'c game =
  board :: "'c Board"
  console :: "string list"

definition console_info :: "string \<Rightarrow> 'c game \<Rightarrow> 'c game" where
  "console_info msg g = g\<lparr>console := console g @ [msg]\<rparr>"

definition requestFinish :: "string set \<Rightarrow> ('c Board \<Rightarrow> 'c game \<Rightarrow> 'c game) \<Rightarrow> 'c game
    \<Rightarrow> error + 'c game" where
  "requestFinish dictionary setBoard g =
     (case validateWordIsland (board g) of
        Inl e \<Rightarrow> Inl e
      | Inr isBoardValidToCheck \<Rightarrow>
          if isBoardValidToCheck
          then (case validateBoard dictionary (board g) of
                  Inl e \<Rightarrow> Inl e
                | Inr (newBoard, isValidBoard) \<Rightarrow>
                    (let g' = setBoard newBoard g
                     in if isValidBoard then Inr (console_info ''done!'' g') else Inr g'))
          else Inr (console_info ''Invalid tiles'' g))"

section \<open>Notions used in the statements\<close>

text \<open>Two tiles that agree on everything but the correctness state, and two grids of
  the same shape whose tiles agree so, position by position.\<close>

definition sameTile :: "Tile \<Rightarrow> Tile \<Rightarrow> bool" where
  "sameTile t t' = (tile_id t' = tile_id t \<and> row t' = row t \<and> col t' = col t \<and> letter t' = letter t)"

definition sameGrid :: "Tile list list \<Rightarrow> Tile list list \<Rightarrow> bool" where
  "sameGrid ts ts' = list_all2 (list_all2 sameTile) ts ts'"

text \<open>The positions a pass visits for a word: \<open>length\<close> columns from the word's origin
  for a row-wise word, \<open>length\<close> rows for a column-wise word, those below
  \<open>gridBounds\<close> only.\<close>

definition covers :: "nat \<Rightarrow> WordFromTile \<Rightarrow> nat \<Rightarrow> nat \<Rightarrow> bool" where
  "covers gridBounds w r c =
     (case direction w of
        LeftToRight \<Rightarrow> r = word_row w \<and> word_col w \<le> c \<and> c < word_col w + length (word w)
      | TopToBottom \<Rightarrow> c = word_col w \<and> word_row w \<le> r \<and> r < word_row w + length (word w) \<and> r < gridBounds)"

text \<open>A word all of whose visited positions exist in the grid.\<close>

definition fits :: "nat \<Rightarrow> Tile list list \<Rightarrow> WordFromTile \<Rightarrow> bool" where
  "fits gridBounds ts w =
     (case direction w of
        LeftToRight \<Rightarrow>
          length (word w) = 0 \<or> (word_row w < length ts \<and> word_col w + length (word w) \<le> length (ts ! word_row w))
      | TopToBottom \<Rightarrow>
          (\<forall>k<length (word w). word_row w + k < gridBounds \<longrightarrow>
             word_row w + k < length ts \<and> word_col w < length (ts ! (word_row w + k))))"

definition idem :: "(TileState \<Rightarrow> TileState) \<Rightarrow> bool" where
  "idem f = (\<forall>s. f (f s) = f s)"

section \<open>Example boards\<close>

text \<open>A board from its rows written as strings, a dot for an empty tile; ids are made
  distinct from the coordinates.  All states start as \<open>IDLE\<close>.\<close>

definition mkTile :: "nat \<Rightarrow> nat \<Rightarrow> char \<Rightarrow> Tile" where
  "mkTile r c ch =
     \<lparr>tile_id = CHR ''t'' # replicate r CHR ''r'' @ replicate c CHR ''c'', row = r, col = c,
      letter = (if ch = CHR ''.'' then None
                else Some \<lparr>letter_id = CHR ''l'' # replicate r CHR ''r'' @ replicate c CHR ''c'',
                           letter_char = [ch]\<rparr>),
      state = IDLE\<rparr>"

definition mkBoard :: "string list \<Rightarrow> unit Board" where
  "mkBoard rows =
     \<lparr>cursor = (),
      tiles = map (\<lambda>(r, s). map (\<lambda>(c, ch). mkTile r c ch) (enumerate 0 s)) (enumerate 0 rows)\<rparr>"

section \<open>The grid invariant and maximal runs\<close>

text \<open>A tile that bears a letter.\<close>

definition occupied :: "Tile \<Rightarrow> bool" where
  "occupied tile = (letter tile \<noteq> None)"

text \<open>The value of a letter is a single character.\<close>

definition singleChar :: "Tile \<Rightarrow> bool" where
  "singleChar tile = (case letter tile of None \<Rightarrow> True | Some l \<Rightarrow> length (letter_char l) = 1)"

text \<open>
  The invariant of the grid in the data model: the matrix has at least one row, all rows
  have the length of the first, every tile's stored row and column are its position in
  the matrix, and every letter is a single character.  (The square grids of the game
  are the case of as many columns as rows.)
\<close>

definition wellFormed :: "Tile list list \<Rightarrow> bool" where
  "wellFormed ts =
     (ts \<noteq> [] \<and>
      list_all (\<lambda>(r, rw). length rw = length (hd ts) \<and>
                  list_all (\<lambda>(c, tile). row tile = r \<and> col tile = c \<and> singleChar tile) (enumerate 0 rw))
        (enumerate 0 ts))"

text \<open>
  A maximal run in a line: \<open>n\<close> consecutive tiles from index \<open>i\<close> that all satisfy
  \<open>P\<close>, with no tile satisfying \<open>P\<close> right before or right after.
\<close>

definition maxRun :: "(Tile \<Rightarrow> bool) \<Rightarrow> Tile list \<Rightarrow> nat \<Rightarrow> nat \<Rightarrow> bool" where
  "maxRun P ln i n =
     (0 < n \<and> i + n \<le> length ln \<and> list_all P (take n (drop i ln)) \<and>
      (i = 0 \<or> \<not> P (ln ! (i - 1))) \<and> (i + n = length ln \<or> \<not> P (ln ! (i + n))))"

text \<open>The concatenated letters of a stretch of occupied tiles, and a column of the grid
  from top to bottom.\<close>

definition lettersOf :: "Tile list \<Rightarrow> string" where
  "lettersOf ln = concat (map (\<lambda>tile. letter_char (the (letter tile))) ln)"

definition column :: "Tile list list \<Rightarrow> nat \<Rightarrow> Tile list" where
  "column ts c = map (\<lambda>rw. rw ! c) ts"

section \<open>Notions used in the proofs about the scan\<close>

text \<open>What the scanning loop takes for a letter, and the scan of one line.\<close>

definition occ :: "Tile \<Rightarrow> bool" where
  "occ tile = truthy (charOf tile)"

definition scanLine :: "WordDirection \<Rightarrow> Tile list \<Rightarrow> WordFromTile list" where
  "scanLine d ln = flush (foldl (scanTile d) ([], None) ln)"

text \<open>The word the scan builds from the run of \<open>n\<close> tiles at index \<open>i\<close>.\<close>

definition runWord :: "WordDirection \<Rightarrow> Tile list \<Rightarrow> nat \<Rightarrow> nat \<Rightarrow> WordFromTile" where
  "runWord d ln i n =
     \<lparr>word = concat (map (\<lambda>tile. the (charOf tile)) (take n (drop i ln))),
      word_row = row (ln ! i), word_col = col (ln ! i), direction = d\<rparr>"

text \<open>In a prefix \<open>xs\<close> of a line: a run already ended by an empty tile, and the run
  that reaches the end of the prefix.\<close>

definition closedRun :: "Tile list \<Rightarrow> nat \<Rightarrow> nat \<Rightarrow> bool" where
  "closedRun xs i n =
     (0 < n \<and> i + n < length xs \<and> (\<forall>k<n. occ (xs ! (i + k))) \<and>
      (i = 0 \<or> \<not> occ (xs ! (i - 1))) \<and> \<not> occ (xs ! (i + n)))"

definition openRun :: "Tile list \<Rightarrow> nat \<Rightarrow> bool" where
  "openRun xs i =
     (i < length xs \<and> (\<forall>k<length xs - i. occ (xs ! (i + k))) \<and> (i = 0 \<or> \<not> occ (xs ! (i - 1))))"

text \<open>The loop invariant of the scan after the prefix \<open>xs\<close>: \<^verbatim>\<open>words\<close> holds the closed
  runs in order, \<^verbatim>\<open>current\<close> the open one.\<close>

definition scanInv :: "WordDirection \<Rightarrow> Tile list \<Rightarrow> WordFromTile list \<times> WordFromTile option \<Rightarrow> bool" where
  "scanInv d xs st =
     ((\<exists>rs. fst st = map (\<lambda>(i, n). runWord d xs i n) rs \<and>
            sorted_wrt (\<lambda>a b. fst a + snd a < fst b) rs \<and>
            (\<forall>i n. (i, n) \<in> set rs \<longleftrightarrow> closedRun xs i n)) \<and>
      (case snd st of
         None \<Rightarrow> xs = [] \<or> \<not> occ (last xs)
       | Some w \<Rightarrow> (\<exists>i. openRun xs i \<and> w = runWord d xs i (length xs - i))))"

text \<open>The candidate for the run of \<open>n\<close> tiles at index \<open>i\<close> of line number \<open>a\<close>; the
  line number and the offset of a candidate; the order of the candidate list.\<close>

definition candidate :: "WordDirection \<Rightarrow> Tile list \<Rightarrow> nat \<Rightarrow> nat \<Rightarrow> nat \<Rightarrow> WordFromTile" where
  "candidate d ln a i n =
     \<lparr>word = toLowerCase (lettersOf (take n (drop i ln))),
      word_row = (case d of LeftToRight \<Rightarrow> a | TopToBottom \<Rightarrow> i),
      word_col = (case d of LeftToRight \<Rightarrow> i | TopToBottom \<Rightarrow> a),
      direction = d\<rparr>"

definition lineOf :: "WordDirection \<Rightarrow> WordFromTile \<Rightarrow> nat" where
  "lineOf d w = (case d of LeftToRight \<Rightarrow> word_row w | TopToBottom \<Rightarrow> word_col w)"

definition offsetOf :: "WordDirection \<Rightarrow> WordFromTile \<Rightarrow> nat" where
  "offsetOf d w = (case d of LeftToRight \<Rightarrow> word_col w | TopToBottom \<Rightarrow> word_row w)"

definition inOrder :: "WordDirection \<Rightarrow> WordFromTile \<Rightarrow> WordFromTile \<Rightarrow> bool" where
  "inOrder d w w' =
     (lineOf d w < lineOf d w' \<or>
      (lineOf d w = lineOf d w' \<and> offsetOf d w + length (word w) < offsetOf d w'))"

text \<open>The lines of a scan (the rows, or the columns) with the coordinates their tiles
  must carry.\<close>

definition lineCoords :: "WordDirection \<Rightarrow> Tile list list \<Rightarrow> bool" where
  "lineCoords d lns =
     (\<forall>a<length lns. \<forall>i<length (lns ! a).
        singleChar (lns ! a ! i) \<and>
        (case d of LeftToRight \<Rightarrow> row (lns ! a ! i) = a \<and> col (lns ! a ! i) = i
                 | TopToBottom \<Rightarrow> row (lns ! a ! i) = i \<and> col (lns ! a ! i) = a))"

section \<open>Notions used in the statements about the passes\<close>

text \<open>The positions a word spans: \<open>length\<close> consecutive columns of its row from its
  origin for a row-wise word, \<open>length\<close> consecutive rows of its column for a column-wise
  word.\<close>

definition spans :: "WordFromTile \<Rightarrow> nat \<Rightarrow> nat \<Rightarrow> bool" where
  "spans w r c =
     (case direction w of
        LeftToRight \<Rightarrow> r = word_row w \<and> word_col w \<le> c \<and> c < word_col w + length (word w)
      | TopToBottom \<Rightarrow> c = word_col w \<and> word_row w \<le> r \<and> r < word_row w + length (word w))"

text \<open>A line in which no two neighbouring tiles are both occupied.\<close>

definition noPairs :: "Tile list \<Rightarrow> bool" where
  "noPairs ln = list_all (\<lambda>(t, t'). \<not> (occupied t \<and> occupied t')) (zip ln (tl ln))"

text \<open>A tile with its correctness state forgotten.\<close>

definition stripState :: "Tile \<Rightarrow> Tile" where
  "stripState tile = tile\<lparr>state := IDLE\<rparr>"

section \<open>Connected regions of occupied tiles\<close>

text \<open>Positions are pairs of a row and a column.  The tile at a position, the position a
  tile stores, and a position of the grid whose tile bears a letter.\<close>

definition tileAt :: "Tile list list \<Rightarrow> nat \<times> nat \<Rightarrow> Tile" where
  "tileAt ts p = ts ! fst p ! snd p"

definition pos :: "Tile \<Rightarrow> nat \<times> nat" where
  "pos tile = (row tile, col tile)"

definition occupiedAt :: "Tile list list \<Rightarrow> nat \<times> nat \<Rightarrow> bool" where
  "occupiedAt ts p = (fst p < length ts \<and> snd p < length (ts ! fst p) \<and> occupied (ts ! fst p ! snd p))"

text \<open>Neighbours in one of the four directions, no diagonals and no wrapping; the steps
  between neighbouring occupied positions; the order of the row-major scan.\<close>

definition adjacent :: "nat \<times> nat \<Rightarrow> nat \<times> nat \<Rightarrow> bool" where
  "adjacent p q =
     ((fst p = fst q \<and> (snd p = Suc (snd q) \<or> snd q = Suc (snd p))) \<or>
      (snd p = snd q \<and> (fst p = Suc (fst q) \<or> fst q = Suc (fst p))))"

definition links :: "Tile list list \<Rightarrow> ((nat \<times> nat) \<times> (nat \<times> nat)) set" where
  "links ts = {(p, q). occupiedAt ts p \<and> occupiedAt ts q \<and> adjacent p q}"

definition rowMajorLe :: "nat \<times> nat \<Rightarrow> nat \<times> nat \<Rightarrow> bool" where
  "rowMajorLe p q = (fst p < fst q \<or> (fst p = fst q \<and> snd p \<le> snd q))"

text \<open>What a call of \<^verbatim>\<open>markTilesDFS\<close> started from the position \<open>src\<close> with the visited
  set \<open>v\<close> guarantees of the set \<open>v'\<close> it leaves: nothing is removed, and every tile
  added is an occupied tile of the grid that is reachable from \<open>src\<close> and has all its
  occupied neighbours in \<open>v'\<close>.\<close>

definition dfsPost :: "Tile list list \<Rightarrow> nat \<times> nat \<Rightarrow> Tile set \<Rightarrow> Tile set \<Rightarrow> bool" where
  "dfsPost ts src v v' =
     (v \<subseteq> v' \<and>
      (\<forall>u\<in>v' - v. u \<in> set (concat ts) \<and> occupied u \<and> (src, pos u) \<in> (links ts)\<^sup>* \<and>
         (\<forall>q. (pos u, q) \<in> links ts \<longrightarrow> tileAt ts q \<in> v')))"

section \<open>Board validation on an object store\<close>

text \<open>The tiles of a board are JavaScript objects, and \<^verbatim>\<open>validateBoard\<close> assigns to the
  \<^verbatim>\<open>state\<close> field of some of them.  To state which objects are written, the tiles live in a
  store: an address is a natural number, \<^verbatim>\<open>objs\<close> gives the tile object at an address and
  the addresses below \<^verbatim>\<open>fresh\<close> are the ones in use.  A board holds the addresses of its
  tiles.  Letter objects are shared by the spread and never written, so they stay values.\<close>

record store =
  objs :: "nat \<Rightarrow> Tile"
  fresh :: nat

record 'c BoardRef =
  cursor_ref :: 'c
  tile_refs :: "nat list list"

text \<open>The grid of tile values a grid of addresses stands for.\<close>

definition view :: "store \<Rightarrow> nat list list \<Rightarrow> Tile list list" where
  "view h refs = map (map (objs h)) refs"

text \<open>An object literal \<^verbatim>\<open>{ ...tile, state: s }\<close> is a new object, at the next unused address.\<close>

definition alloc :: "Tile \<Rightarrow> store \<Rightarrow> nat \<times> store" where
  "alloc tile h = (fresh h, \<lparr>objs = (objs h)(fresh h := tile), fresh = Suc (fresh h)\<rparr>)"

text \<open>\<^verbatim>\<open>tiles.map((row) => row.map((tile) => tile.letter ? {...} : {...}))\<close>: a new object for
  each position, in row-major order, initialised from the object read at that position.\<close>

fun copyRow :: "nat list \<Rightarrow> store \<Rightarrow> nat list \<times> store" where
  "copyRow [] h = ([], h)"
| "copyRow (a # as) h =
     (let (a', h1) = alloc (initTile (objs h a)) h;
          (as', h2) = copyRow as h1
      in (a' # as', h2))"

fun copyGrid :: "nat list list \<Rightarrow> store \<Rightarrow> nat list list \<times> store" where
  "copyGrid [] h = ([], h)"
| "copyGrid (rw # rws) h =
     (let (rw', h1) = copyRow rw h;
          (rws', h2) = copyGrid rws h1
      in (rw' # rws', h2))"

text \<open>\<^verbatim>\<open>const tile = validatedBoard.tiles[r][c]; tile.state = f(tile.state)\<close>: the object at the
  address found at that position is updated in place.\<close>

definition writeState_store :: "(TileState \<Rightarrow> TileState) \<Rightarrow> nat list list \<Rightarrow> store \<Rightarrow> nat \<Rightarrow> nat
    \<Rightarrow> error + store" where
  "writeState_store f refs h r c =
     (case at2 refs r c of
        None \<Rightarrow> Inl TypeError
      | Some a \<Rightarrow> Inr (h\<lparr>objs := (objs h)(a := (objs h a)\<lparr>state := f (state (objs h a))\<rparr>)\<rparr>))"

text \<open>The two inner loops, the \<^verbatim>\<open>switch\<close> and the loop over the words, as in
  \<^const>\<open>loopLTR\<close>, \<^const>\<open>loopTTB\<close>, \<^const>\<open>markWord\<close> and \<^const>\<open>markWords\<close>.\<close>

fun loopLTR_store :: "(TileState \<Rightarrow> TileState) \<Rightarrow> WordFromTile \<Rightarrow> nat list list \<Rightarrow> store \<Rightarrow> nat list
    \<Rightarrow> error + store" where
  "loopLTR_store f w refs h [] = Inr h"
| "loopLTR_store f w refs h (c # cs) =
     (case writeState_store f refs h (word_row w) (word_col w + c) of
        Inl e \<Rightarrow> Inl e
      | Inr h' \<Rightarrow> loopLTR_store f w refs h' cs)"

fun loopTTB_store :: "(TileState \<Rightarrow> TileState) \<Rightarrow> nat \<Rightarrow> WordFromTile \<Rightarrow> nat list list \<Rightarrow> store
    \<Rightarrow> nat list \<Rightarrow> error + store" where
  "loopTTB_store f gridBounds w refs h [] = Inr h"
| "loopTTB_store f gridBounds w refs h (r # rs) =
     (if int (word_row w + r) > int gridBounds - 1 then loopTTB_store f gridBounds w refs h rs
      else
        (case writeState_store f refs h (word_row w + r) (word_col w) of
           Inl e \<Rightarrow> Inl e
         | Inr h' \<Rightarrow> loopTTB_store f gridBounds w refs h' rs))"

definition markWord_store :: "(TileState \<Rightarrow> TileState) \<Rightarrow> nat \<Rightarrow> nat list list \<Rightarrow> store \<Rightarrow> WordFromTile
    \<Rightarrow> error + store" where
  "markWord_store f gridBounds refs h w =
     (case direction w of
        LeftToRight \<Rightarrow> loopLTR_store f w refs h [0..<length (word w)]
      | TopToBottom \<Rightarrow> loopTTB_store f gridBounds w refs h [0..<length (word w)])"

fun markWords_store :: "(TileState \<Rightarrow> TileState) \<Rightarrow> nat \<Rightarrow> nat list list \<Rightarrow> store \<Rightarrow> WordFromTile list
    \<Rightarrow> error + store" where
  "markWords_store f gridBounds refs h [] = Inr h"
| "markWords_store f gridBounds refs h (w # ws) =
     (case markWord_store f gridBounds refs h w of
        Inl e \<Rightarrow> Inl e
      | Inr h' \<Rightarrow> markWords_store f gridBounds refs h' ws)"

text \<open>\<^verbatim>\<open>validateBoard\<close> on the store: the words are read from the input objects, the
  spread allocates the objects of \<^verbatim>\<open>validatedBoard\<close>, and the two passes write to these.\<close>

definition validateBoard_store :: "string set \<Rightarrow> store \<Rightarrow> 'c BoardRef
    \<Rightarrow> error + (store \<times> 'c BoardRef \<times> bool)" where
  "validateBoard_store dictionary h b =
     (let refs = tile_refs b;
          gridBounds = length refs
      in case foundWords (view h refs) of
        Inl e \<Rightarrow> Inl e
      | Inr found \<Rightarrow>
          (let allWordsAreValid = list_all (\<lambda>w. word w \<in> dictionary) found;
               (validated, h0) = copyGrid refs h;
               validFoundWords = filter (\<lambda>w. word w \<in> dictionary) found
           in case markWords_store markValid gridBounds validated h0 validFoundWords of
             Inl e \<Rightarrow> Inl e
           | Inr h1 \<Rightarrow>
               (let invalidFoundWords = filter (\<lambda>w. word w \<notin> dictionary) found
                in case markWords_store demote gridBounds validated h1 invalidFoundWords of
                  Inl e \<Rightarrow> Inl e
                | Inr h2 \<Rightarrow>
                    Inr (h2, \<lparr>cursor_ref = cursor_ref b, tile_refs = validated\<rparr>, allWordsAreValid))))"

text \<open>Every address of the grid is in use.\<close>

definition allocated :: "store \<Rightarrow> nat list list \<Rightarrow> bool" where
  "allocated h refs = list_all (list_all (\<lambda>a. a < fresh h)) refs"

text \<open>What a write through the addresses \<^verbatim>\<open>refs\<close> may change: nothing outside them, and
  inside them nothing but the state.\<close>

definition frame :: "nat list list \<Rightarrow> store \<Rightarrow> store \<Rightarrow> bool" where
  "frame refs h h' =
     (fresh h' = fresh h \<and> (\<forall>a. a \<notin> set (concat refs) \<longrightarrow> objs h' a = objs h a) \<and>
      (\<forall>a. sameTile (objs h a) (objs h' a)))"

text \<open>A store holding the tiles of an example board at the addresses from 0, in row-major
  order, and the board of these addresses.\<close>

definition mkStore :: "string list \<Rightarrow> store" where
  "mkStore rows = \<lparr>objs = (\<lambda>a. concat (tiles (mkBoard rows)) ! a), fresh = length (concat rows)\<rparr>"

definition mkBoardRef :: "string list \<Rightarrow> unit BoardRef" where
  "mkBoardRef rows =
     \<lparr>cursor_ref = (),
      tile_refs = fst (foldl (\<lambda>(acc, n) s. (acc @ [[n..<n + length s]], n + length s)) ([], 0) rows)\<rparr>"

section \<open>Auxiliary facts about indexing and the marking passes\<close>

lemma at_Some: "at xs i = Some x \<longleftrightarrow> i < length xs \<and> x = xs ! i"
  by (auto simp: at_def)

lemma at_None: "at xs i = None \<longleftrightarrow> length xs \<le> i"
  by (auto simp: at_def)

lemma at2_Some: "at2 xss r c = Some x \<longleftrightarrow> r < length xss \<and> c < length (xss ! r) \<and> x = xss ! r ! c"
  by (auto simp: at2_def at_def split: option.splits)

lemma at2_None: "at2 xss r c = None \<longleftrightarrow> \<not> (r < length xss \<and> c < length (xss ! r))"
  by (auto simp: at2_def at_def split: option.splits)

lemma sameTile_refl: "sameTile t t"
  by (simp add: sameTile_def)

lemma sameGrid_refl: "sameGrid ts ts"
  by (simp add: sameGrid_def list_all2_refl sameTile_refl)

lemma sameTile_trans: "sameTile a b \<Longrightarrow> sameTile b c \<Longrightarrow> sameTile a c"
  by (simp add: sameTile_def)

lemma sameGrid_trans: "sameGrid a b \<Longrightarrow> sameGrid b c \<Longrightarrow> sameGrid a c"
  unfolding sameGrid_def
  by (erule list_all2_trans [rotated], assumption) (erule list_all2_trans [rotated], assumption, rule sameTile_trans)

lemma sameGrid_length: "sameGrid ts ts' \<Longrightarrow> length ts' = length ts"
  by (simp add: sameGrid_def list_all2_lengthD)

lemma sameGrid_row_length: "sameGrid ts ts' \<Longrightarrow> r < length ts \<Longrightarrow> length (ts' ! r) = length (ts ! r)"
  by (auto simp: sameGrid_def list_all2_conv_all_nth)

lemma sameGrid_nth: "sameGrid ts ts' \<Longrightarrow> r < length ts \<Longrightarrow> c < length (ts ! r) \<Longrightarrow> sameTile (ts ! r ! c) (ts' ! r ! c)"
  by (auto simp: sameGrid_def list_all2_conv_all_nth)

lemma writeState_Inr:
  "writeState f ts r c = Inr ts' \<longleftrightarrow>
     r < length ts \<and> c < length (ts ! r) \<and> ts' = ts[r := (ts ! r)[c := (ts ! r ! c)\<lparr>state := f (state (ts ! r ! c))\<rparr>]]"
  by (auto simp: writeState_def at2_Some at2_None split: option.splits)

lemma writeState_Inl:
  "writeState f ts r c = Inl e \<longleftrightarrow> \<not> (r < length ts \<and> c < length (ts ! r))"
  by (cases e) (auto simp: writeState_def at2_Some at2_None split: option.splits)

lemma writeState_sameGrid: "writeState f ts r c = Inr ts' \<Longrightarrow> sameGrid ts ts'"
  by (auto simp: writeState_Inr sameGrid_def list_all2_conv_all_nth nth_list_update sameTile_def)

lemma writeState_state:
  assumes "writeState f ts r c = Inr ts'" "r' < length ts" "c' < length (ts ! r')"
  shows "state (ts' ! r' ! c') = (if r' = r \<and> c' = c then f (state (ts ! r' ! c')) else state (ts ! r' ! c'))"
  using assms by (auto simp: writeState_Inr nth_list_update)

lemma idem_markValid: "idem markValid"
  by (simp add: idem_def markValid_def)

lemma idem_demote: "idem demote"
  by (simp add: idem_def demote_def)

lemma loopLTR_sameGrid: "loopLTR f w ts cs = Inr ts' \<Longrightarrow> sameGrid ts ts'"
proof (induction cs arbitrary: ts)
  case Nil
  then show ?case by (simp add: sameGrid_refl)
next
  case (Cons c cs)
  then obtain ts1 where 1: "writeState f ts (word_row w) (word_col w + c) = Inr ts1"
    and 2: "loopLTR f w ts1 cs = Inr ts'"
    by (auto split: sum.splits)
  from writeState_sameGrid [OF 1] Cons.IH [OF 2] show ?case by (rule sameGrid_trans)
qed

lemma loopTTB_sameGrid: "loopTTB f gb w ts rs = Inr ts' \<Longrightarrow> sameGrid ts ts'"
proof (induction rs arbitrary: ts)
  case Nil
  then show ?case by (simp add: sameGrid_refl)
next
  case (Cons r rs)
  show ?case
  proof (cases "int (word_row w + r) > int gb - 1")
    case True
    with Cons show ?thesis by simp
  next
    case False
    with Cons.prems obtain ts1 where 1: "writeState f ts (word_row w + r) (word_col w) = Inr ts1"
      and 2: "loopTTB f gb w ts1 rs = Inr ts'"
      by (auto split: sum.splits)
    from writeState_sameGrid [OF 1] Cons.IH [OF 2] show ?thesis by (rule sameGrid_trans)
  qed
qed

lemma markWord_sameGrid: "markWord f gb ts w = Inr ts' \<Longrightarrow> sameGrid ts ts'"
  by (auto simp: markWord_def split: WordDirection.splits dest: loopLTR_sameGrid loopTTB_sameGrid)

lemma markWords_sameGrid: "markWords f gb ts ws = Inr ts' \<Longrightarrow> sameGrid ts ts'"
proof (induction ws arbitrary: ts)
  case Nil
  then show ?case by (simp add: sameGrid_refl)
next
  case (Cons w ws)
  then obtain ts1 where 1: "markWord f gb ts w = Inr ts1" and 2: "markWords f gb ts1 ws = Inr ts'"
    by (auto split: sum.splits)
  from markWord_sameGrid [OF 1] Cons.IH [OF 2] show ?case by (rule sameGrid_trans)
qed

lemma loopLTR_state:
  assumes "idem f" "loopLTR f w ts cs = Inr ts'" "r < length ts" "c < length (ts ! r)"
  shows "state (ts' ! r ! c) =
     (if r = word_row w \<and> (\<exists>k\<in>set cs. c = word_col w + k) then f (state (ts ! r ! c)) else state (ts ! r ! c))"
  using assms(2-)
proof (induction cs arbitrary: ts)
  case Nil
  then show ?case by simp
next
  case (Cons k cs)
  then obtain ts1 where 1: "writeState f ts (word_row w) (word_col w + k) = Inr ts1"
    and 2: "loopLTR f w ts1 cs = Inr ts'"
    by (auto split: sum.splits)
  have sg: "sameGrid ts ts1" by (rule writeState_sameGrid [OF 1])
  have r1: "r < length ts1" using sg Cons.prems by (simp add: sameGrid_length)
  have c1: "c < length (ts1 ! r)" using sg Cons.prems by (simp add: sameGrid_row_length)
  note s1 = writeState_state [OF 1 Cons.prems(2,3)]
  note s2 = Cons.IH [OF 2 r1 c1]
  from \<open>idem f\<close> have ff: "\<And>s. f (f s) = f s" by (simp add: idem_def)
  show ?case unfolding s2 s1 by (auto simp: ff)
qed

lemma loopTTB_state:
  assumes "idem f" "loopTTB f gb w ts rs = Inr ts'" "r < length ts" "c < length (ts ! r)"
  shows "state (ts' ! r ! c) =
     (if c = word_col w \<and> (\<exists>k\<in>set rs. r = word_row w + k \<and> r < gb) then f (state (ts ! r ! c)) else state (ts ! r ! c))"
  using assms(2-)
proof (induction rs arbitrary: ts)
  case Nil
  then show ?case by simp
next
  case (Cons k rs)
  show ?case
  proof (cases "int (word_row w + k) > int gb - 1")
    case True
    with Cons.prems have 2: "loopTTB f gb w ts rs = Inr ts'" by simp
    from True have "\<not> word_row w + k < gb" by linarith
    with Cons.IH [OF 2 Cons.prems(2,3)] show ?thesis by auto
  next
    case False
    with Cons.prems obtain ts1 where 1: "writeState f ts (word_row w + k) (word_col w) = Inr ts1"
      and 2: "loopTTB f gb w ts1 rs = Inr ts'"
      by (auto split: sum.splits)
    from False have lt: "word_row w + k < gb" by linarith
    have sg: "sameGrid ts ts1" by (rule writeState_sameGrid [OF 1])
    have r1: "r < length ts1" using sg Cons.prems by (simp add: sameGrid_length)
    have c1: "c < length (ts1 ! r)" using sg Cons.prems by (simp add: sameGrid_row_length)
    note s1 = writeState_state [OF 1 Cons.prems(2,3)]
    note s2 = Cons.IH [OF 2 r1 c1]
    from \<open>idem f\<close> have ff: "\<And>s. f (f s) = f s" by (simp add: idem_def)
    show ?thesis unfolding s2 s1 using lt by (auto simp: ff)
  qed
qed

lemma ex_offset: "(\<exists>k\<in>set [0..<n]. (c::nat) = a + k \<and> P) \<longleftrightarrow> a \<le> c \<and> c < a + n \<and> P"
proof
  assume "\<exists>k\<in>set [0..<n]. c = a + k \<and> P"
  then show "a \<le> c \<and> c < a + n \<and> P" by auto
next
  assume h: "a \<le> c \<and> c < a + n \<and> P"
  then have "c - a \<in> set [0..<n]" "c = a + (c - a)" by auto
  with h show "\<exists>k\<in>set [0..<n]. c = a + k \<and> P" by blast
qed

lemma markWord_state:
  assumes "idem f" "markWord f gb ts w = Inr ts'" "r < length ts" "c < length (ts ! r)"
  shows "state (ts' ! r ! c) = (if covers gb w r c then f (state (ts ! r ! c)) else state (ts ! r ! c))"
proof (cases "direction w")
  case LeftToRight
  with assms(2) have "loopLTR f w ts [0..<length (word w)] = Inr ts'" by (simp add: markWord_def)
  from loopLTR_state [OF assms(1) this assms(3,4)] LeftToRight ex_offset [of "length (word w)" c "word_col w" True]
  show ?thesis
    by (simp add: covers_def)
next
  case TopToBottom
  with assms(2) have "loopTTB f gb w ts [0..<length (word w)] = Inr ts'" by (simp add: markWord_def)
  from loopTTB_state [OF assms(1) this assms(3,4)] TopToBottom ex_offset [of "length (word w)" r "word_row w" "r < gb"]
  show ?thesis
    by (simp add: covers_def)
qed

lemma markWords_state:
  assumes "idem f" "markWords f gb ts ws = Inr ts'" "r < length ts" "c < length (ts ! r)"
  shows "state (ts' ! r ! c) = (if \<exists>w\<in>set ws. covers gb w r c then f (state (ts ! r ! c)) else state (ts ! r ! c))"
  using assms(2-)
proof (induction ws arbitrary: ts)
  case Nil
  then show ?case by simp
next
  case (Cons w ws)
  then obtain ts1 where 1: "markWord f gb ts w = Inr ts1" and 2: "markWords f gb ts1 ws = Inr ts'"
    by (auto split: sum.splits)
  have sg: "sameGrid ts ts1" by (rule markWord_sameGrid [OF 1])
  have r1: "r < length ts1" using sg Cons.prems by (simp add: sameGrid_length)
  have c1: "c < length (ts1 ! r)" using sg Cons.prems by (simp add: sameGrid_row_length)
  note s1 = markWord_state [OF assms(1) 1 Cons.prems(2,3)]
  note s2 = Cons.IH [OF 2 r1 c1]
  from \<open>idem f\<close> have ff: "\<And>s. f (f s) = f s" by (simp add: idem_def)
  show ?case unfolding s2 s1 by (auto simp: ff)
qed

lemma loopLTR_total:
  assumes "word_row w < length ts" "\<forall>k\<in>set cs. word_col w + k < length (ts ! word_row w)"
  shows "\<exists>ts'. loopLTR f w ts cs = Inr ts'"
  using assms
proof (induction cs arbitrary: ts)
  case Nil
  then show ?case by simp
next
  case (Cons k cs)
  then obtain ts1 where 1: "writeState f ts (word_row w) (word_col w + k) = Inr ts1"
    by (auto simp: writeState_Inr)
  have sg: "sameGrid ts ts1" by (rule writeState_sameGrid [OF 1])
  have "word_row w < length ts1" using sg Cons.prems by (simp add: sameGrid_length)
  moreover have "\<forall>k\<in>set cs. word_col w + k < length (ts1 ! word_row w)"
    using sg Cons.prems by (simp add: sameGrid_row_length)
  ultimately obtain ts' where "loopLTR f w ts1 cs = Inr ts'" using Cons.IH by blast
  with 1 show ?case by simp
qed

lemma loopTTB_total:
  assumes "\<forall>k\<in>set rs. word_row w + k < gb \<longrightarrow>
             word_row w + k < length ts \<and> word_col w < length (ts ! (word_row w + k))"
  shows "\<exists>ts'. loopTTB f gb w ts rs = Inr ts'"
  using assms
proof (induction rs arbitrary: ts)
  case Nil
  then show ?case by simp
next
  case (Cons k rs)
  show ?case
  proof (cases "int (word_row w + k) > int gb - 1")
    case True
    with Cons show ?thesis by simp
  next
    case False
    then have lt: "word_row w + k < gb" by linarith
    with Cons.prems obtain ts1 where 1: "writeState f ts (word_row w + k) (word_col w) = Inr ts1"
      by (auto simp: writeState_Inr)
    have sg: "sameGrid ts ts1" by (rule writeState_sameGrid [OF 1])
    have "\<forall>k\<in>set rs. word_row w + k < gb \<longrightarrow>
             word_row w + k < length ts1 \<and> word_col w < length (ts1 ! (word_row w + k))"
      using sg Cons.prems by (simp add: sameGrid_length sameGrid_row_length)
    then obtain ts' where "loopTTB f gb w ts1 rs = Inr ts'" using Cons.IH by blast
    with 1 False show ?thesis by simp
  qed
qed

lemma markWord_total: "fits gb ts w \<Longrightarrow> \<exists>ts'. markWord f gb ts w = Inr ts'"
proof (cases "direction w")
  case LeftToRight
  assume "fits gb ts w"
  with LeftToRight consider "length (word w) = 0"
    | "word_row w < length ts" "word_col w + length (word w) \<le> length (ts ! word_row w)"
    by (auto simp: fits_def)
  then show ?thesis
  proof cases
    case 1
    with LeftToRight show ?thesis by (simp add: markWord_def)
  next
    case 2
    then have "\<forall>k\<in>set [0..<length (word w)]. word_col w + k < length (ts ! word_row w)" by auto
    from loopLTR_total [OF 2(1) this] LeftToRight show ?thesis by (simp add: markWord_def)
  qed
next
  case TopToBottom
  assume "fits gb ts w"
  with TopToBottom have "\<forall>k\<in>set [0..<length (word w)]. word_row w + k < gb \<longrightarrow>
             word_row w + k < length ts \<and> word_col w < length (ts ! (word_row w + k))"
    by (simp add: fits_def)
  from loopTTB_total [OF this] TopToBottom show ?thesis by (simp add: markWord_def)
qed

lemma fits_sameGrid: "sameGrid ts ts' \<Longrightarrow> fits gb ts w \<Longrightarrow> fits gb ts' w"
  by (cases "direction w") (auto simp: fits_def sameGrid_length sameGrid_row_length)

lemma markWords_total: "\<forall>w\<in>set ws. fits gb ts w \<Longrightarrow> \<exists>ts'. markWords f gb ts ws = Inr ts'"
proof (induction ws arbitrary: ts)
  case Nil
  then show ?case by simp
next
  case (Cons w ws)
  then obtain ts1 where 1: "markWord f gb ts w = Inr ts1"
    using markWord_total [of gb ts w f] by auto
  have sg: "sameGrid ts ts1" by (rule markWord_sameGrid [OF 1])
  with Cons.prems have "\<forall>w\<in>set ws. fits gb ts1 w" by (auto intro: fits_sameGrid)
  then obtain ts' where "markWords f gb ts1 ws = Inr ts'" using Cons.IH by blast
  with 1 show ?case by simp
qed

lemma sameGrid_map_length: "sameGrid ts ts' \<Longrightarrow> map length ts' = map length ts"
  by (auto simp: sameGrid_def list_all2_conv_all_nth intro!: nth_equalityI)

text \<open>
  Claim C7.  In the marking pass and in the demotion pass alike, the loop over a
  column-wise word guards every row index with the grid's row count.  For a column-wise
  word of any origin row and any length whose column exists in every row of the grid,
  the loop therefore never indexes a row that is not there: it returns normally, the
  shape of the grid is unchanged, and the only tiles written are those of the word's
  column in the rows of the grid the word spans; rows past the last one are skipped.
\<close>

theorem column_word_rows_guarded:
  assumes "direction w = TopToBottom" and "\<forall>rw\<in>set ts. word_col w < length rw"
  shows "(\<exists>ts'. markWord markValid (length ts) ts w = Inr ts' \<and> map length ts' = map length ts \<and>
            (\<forall>r<length ts. \<forall>c<length (ts ! r). state (ts' ! r ! c) =
               (if c = word_col w \<and> word_row w \<le> r \<and> r < word_row w + length (word w)
                then VALID else state (ts ! r ! c)))) \<and>
         (\<exists>ts'. markWord demote (length ts) ts w = Inr ts' \<and> map length ts' = map length ts \<and>
            (\<forall>r<length ts. \<forall>c<length (ts ! r). state (ts' ! r ! c) =
               (if c = word_col w \<and> word_row w \<le> r \<and> r < word_row w + length (word w)
                then demote (state (ts ! r ! c)) else state (ts ! r ! c))))"
proof -
  have f: "fits (length ts) ts w"
    using assms by (simp add: fits_def)
  have cov: "\<And>r c. r < length ts \<Longrightarrow> covers (length ts) w r c
      = (c = word_col w \<and> word_row w \<le> r \<and> r < word_row w + length (word w))"
    using assms(1) by (auto simp: covers_def)
  have "\<exists>ts'. markWord g (length ts) ts w = Inr ts' \<and> map length ts' = map length ts \<and>
            (\<forall>r<length ts. \<forall>c<length (ts ! r). state (ts' ! r ! c) =
               (if c = word_col w \<and> word_row w \<le> r \<and> r < word_row w + length (word w)
                then g (state (ts ! r ! c)) else state (ts ! r ! c)))" if g: "idem g" for g
  proof -
    from markWord_total [OF f] obtain ts' where 1: "markWord g (length ts) ts w = Inr ts'" by blast
    have "map length ts' = map length ts"
      by (rule sameGrid_map_length [OF markWord_sameGrid [OF 1]])
    moreover have "\<forall>r<length ts. \<forall>c<length (ts ! r). state (ts' ! r ! c) =
               (if c = word_col w \<and> word_row w \<le> r \<and> r < word_row w + length (word w)
                then g (state (ts ! r ! c)) else state (ts ! r ! c))"
      using markWord_state [OF g 1] cov by simp
    ultimately show ?thesis using 1 by blast
  qed
  note gen = this
  have mv: "\<And>s. markValid s = VALID" by (simp add: markValid_def)
  show ?thesis
    using gen [OF idem_markValid] gen [OF idem_demote] by (simp only: mv)
qed

theorem column_word_rows_guarded_witness:
  "direction \<lparr>word = ''xyz'', word_row = 1, word_col = 0, direction = TopToBottom\<rparr> = TopToBottom \<and>
   list_all (\<lambda>rw. word_col \<lparr>word = ''xyz'', word_row = 1, word_col = 0, direction = TopToBottom\<rparr> < length rw)
     (tiles (mkBoard [''AB'', ''CD''])) \<and>
   (\<exists>ts'. markWord markValid 2 (tiles (mkBoard [''AB'', ''CD'']))
            \<lparr>word = ''xyz'', word_row = 1, word_col = 0, direction = TopToBottom\<rparr> = Inr ts' \<and>
          map (map state) ts' = [[IDLE, IDLE], [VALID, IDLE]])"
proof -
  let ?w = "\<lparr>word = ''xyz'', word_row = 1, word_col = 0, direction = TopToBottom\<rparr>"
  let ?ts = "tiles (mkBoard [''AB'', ''CD''])"
  have h1: "direction ?w = TopToBottom" by simp
  have h2: "\<forall>rw\<in>set ?ts. word_col ?w < length rw" by code_simp
  have l: "length ?ts = 2" by code_simp
  from column_word_rows_guarded [OF h1 h2] obtain ts' where
    1: "markWord markValid (length ?ts) ?ts ?w = Inr ts'" by blast
  have 2: "markWord markValid 2 ?ts ?w = Inr (ts[1 := (ts ! 1)[0 := (ts ! 1 ! 0)\<lparr>state := VALID\<rparr>]])" if "ts = ?ts" for ts
    unfolding that by code_simp
  have 3: "map (map state) (?ts[1 := (?ts ! 1)[0 := (?ts ! 1 ! 0)\<lparr>state := VALID\<rparr>]]) = [[IDLE, IDLE], [VALID, IDLE]]"
    by code_simp
  from 1 2 [OF refl] 3 h1 h2 show ?thesis unfolding l list_all_iff by auto
qed

lemma list_all_take_drop:
  "i + n \<le> length xs \<Longrightarrow> list_all P (take n (drop i xs)) \<longleftrightarrow> (\<forall>k<n. P (xs ! (i + k)))"
  by (auto simp: list_all_length)

lemma maxRun_iff:
  "maxRun occ xs i n \<longleftrightarrow> closedRun xs i n \<or> (openRun xs i \<and> n = length xs - i)"
proof -
  consider "i + n < length xs" | "i + n = length xs" | "length xs < i + n" by linarith
  then show ?thesis
  proof cases
    case 1
    then have n: "n \<noteq> length xs - i" by auto
    have la: "list_all occ (take n (drop i xs)) \<longleftrightarrow> (\<forall>k<n. occ (xs ! (i + k)))"
      by (rule list_all_take_drop) (use 1 in simp)
    show ?thesis
      unfolding maxRun_def la closedRun_def using 1 n by auto
  next
    case 2
    then have n: "n = length xs - i" by auto
    have la: "list_all occ (take n (drop i xs)) \<longleftrightarrow> (\<forall>k<n. occ (xs ! (i + k)))"
      by (rule list_all_take_drop) (use 2 in simp)
    show ?thesis
      unfolding maxRun_def la closedRun_def openRun_def using 2 n by auto
  next
    case 3
    then show ?thesis
      unfolding maxRun_def closedRun_def openRun_def by auto
  qed
qed

lemma openRun_unique: "openRun xs i \<Longrightarrow> openRun xs j \<Longrightarrow> i = j"
proof (rule ccontr)
  assume a: "openRun xs i" "openRun xs j" "i \<noteq> j"
  have *: False if "openRun xs a" "openRun xs b" "a < b" for a b
  proof -
    from that have "b - 1 - a < length xs - a" "0 < b" by (auto simp: openRun_def)
    with that(1) have "occ (xs ! (a + (b - 1 - a)))" unfolding openRun_def by blast
    moreover from that have "a + (b - 1 - a) = b - 1" by simp
    ultimately show False using that(2) \<open>0 < b\<close> by (auto simp: openRun_def)
  qed
  from a * [of i j] * [of j i] show False by (cases "i < j") auto
qed

lemma openRun_last: "openRun xs i \<Longrightarrow> xs \<noteq> [] \<and> occ (last xs)"
proof -
  assume a: "openRun xs i"
  then have ne: "xs \<noteq> []" by (auto simp: openRun_def)
  from a have "length xs - 1 - i < length xs - i" by (auto simp: openRun_def)
  with a have "occ (xs ! (i + (length xs - 1 - i)))" unfolding openRun_def by blast
  moreover from a have "i + (length xs - 1 - i) = length xs - 1" by (auto simp: openRun_def)
  ultimately show ?thesis using ne by (simp add: last_conv_nth)
qed

lemma closedRun_snoc_occ:
  assumes "occ x"
  shows "closedRun (xs @ [x]) i n \<longleftrightarrow> closedRun xs i n"
proof
  assume c: "closedRun (xs @ [x]) i n"
  then have "i + n \<noteq> length xs" using assms by (auto simp: closedRun_def nth_append)
  with c have lt: "i + n < length xs" by (auto simp: closedRun_def)
  with c show "closedRun xs i n"
    unfolding closedRun_def by (auto simp: nth_append split: if_splits)
next
  assume c: "closedRun xs i n"
  then show "closedRun (xs @ [x]) i n"
    unfolding closedRun_def by (auto simp: nth_append)
qed

lemma openRun_snoc_occ:
  assumes "occ x"
  shows "openRun (xs @ [x]) i \<longleftrightarrow> openRun xs i \<or> (i = length xs \<and> (xs = [] \<or> \<not> occ (last xs)))"
proof (cases "i < length xs")
  case True
  have "(\<forall>k<Suc (length xs) - i. occ ((xs @ [x]) ! (i + k))) \<longleftrightarrow> (\<forall>k<length xs - i. occ (xs ! (i + k)))"
  proof
    assume h: "\<forall>k<Suc (length xs) - i. occ ((xs @ [x]) ! (i + k))"
    show "\<forall>k<length xs - i. occ (xs ! (i + k))"
    proof (intro allI impI)
      fix k assume "k < length xs - i"
      with h have "occ ((xs @ [x]) ! (i + k))" "i + k < length xs" by auto
      then show "occ (xs ! (i + k))" by (simp add: nth_append)
    qed
  next
    assume h: "\<forall>k<length xs - i. occ (xs ! (i + k))"
    show "\<forall>k<Suc (length xs) - i. occ ((xs @ [x]) ! (i + k))"
    proof (intro allI impI)
      fix k assume "k < Suc (length xs) - i"
      then consider "k < length xs - i" | "i + k = length xs" by linarith
      then show "occ ((xs @ [x]) ! (i + k))"
        using h assms by cases (auto simp: nth_append)
    qed
  qed
  moreover have "(i = 0 \<or> \<not> occ ((xs @ [x]) ! (i - 1))) \<longleftrightarrow> (i = 0 \<or> \<not> occ (xs ! (i - 1)))"
    using True by (auto simp: nth_append)
  ultimately show ?thesis using True by (simp add: openRun_def)
next
  case False
  show ?thesis
  proof (cases "i = length xs")
    case True
    then show ?thesis using assms
      by (cases "xs = []") (auto simp: openRun_def nth_append last_conv_nth)
  next
    case False
    with \<open>\<not> i < length xs\<close> show ?thesis by (auto simp: openRun_def)
  qed
qed

lemma openRun_snoc_empty:
  assumes "\<not> occ x"
  shows "\<not> openRun (xs @ [x]) i"
proof
  assume "openRun (xs @ [x]) i"
  from openRun_last [OF this] assms show False by simp
qed

lemma closedRun_snoc_empty:
  assumes "\<not> occ x"
  shows "closedRun (xs @ [x]) i n \<longleftrightarrow> closedRun xs i n \<or> (openRun xs i \<and> n = length xs - i)"
proof (cases "i + n < length xs")
  case True
  then have "closedRun (xs @ [x]) i n \<longleftrightarrow> closedRun xs i n"
    unfolding closedRun_def by (auto simp: nth_append)
  moreover from True have "n \<noteq> length xs - i" by auto
  ultimately show ?thesis by simp
next
  case False
  then have nc: "\<not> closedRun xs i n" by (simp add: closedRun_def)
  show ?thesis
  proof (cases "i + n = length xs \<and> 0 < n")
    case True
    then have n: "n = length xs - i" and i: "i < length xs" by auto
    have "(\<forall>k<n. occ ((xs @ [x]) ! (i + k))) \<longleftrightarrow> (\<forall>k<length xs - i. occ (xs ! (i + k)))"
      using n True by (auto simp: nth_append)
    moreover have "(i = 0 \<or> \<not> occ ((xs @ [x]) ! (i - 1))) \<longleftrightarrow> (i = 0 \<or> \<not> occ (xs ! (i - 1)))"
      using i by (auto simp: nth_append)
    moreover have "\<not> occ ((xs @ [x]) ! (i + n))" using True assms by (simp add: nth_append)
    ultimately show ?thesis using True nc i n
      unfolding closedRun_def openRun_def by simp
  next
    case False
    with \<open>\<not> i + n < length xs\<close> have "\<not> closedRun (xs @ [x]) i n"
      by (auto simp: closedRun_def)
    moreover from False have "\<not> (openRun xs i \<and> n = length xs - i)"
      by (auto simp: openRun_def)
    ultimately show ?thesis using nc by simp
  qed
qed

lemma runWord_snoc_inside:
  "i + n \<le> length xs \<Longrightarrow> i < length xs \<Longrightarrow> runWord d (xs @ [x]) i n = runWord d xs i n"
  by (simp add: runWord_def nth_append)

lemma runWord_snoc_extend:
  "i < length xs \<Longrightarrow>
   runWord d (xs @ [x]) i (Suc (length xs) - i)
     = (runWord d xs i (length xs - i))\<lparr>word := word (runWord d xs i (length xs - i)) @ the (charOf x)\<rparr>"
  by (simp add: runWord_def nth_append Suc_diff_le)

lemma runWord_snoc_new:
  "runWord d (xs @ [x]) (length xs) (Suc 0) = \<lparr>word = the (charOf x), word_row = row x, word_col = col x, direction = d\<rparr>"
  by (simp add: runWord_def)

lemma closed_before_open:
  assumes "closedRun xs j m" "openRun xs i"
  shows "j + m < i"
proof (rule ccontr)
  assume "\<not> j + m < i"
  with assms(1) have "j + m - i < length xs - i" by (auto simp: closedRun_def)
  with assms(2) have "occ (xs ! (i + (j + m - i)))" unfolding openRun_def by blast
  moreover from \<open>\<not> j + m < i\<close> have "i + (j + m - i) = j + m" by simp
  ultimately show False using assms(1) by (simp add: closedRun_def)
qed

lemma map_runWord_snoc:
  assumes "\<forall>i n. (i, n) \<in> set rs \<longrightarrow> closedRun xs i n"
  shows "map (\<lambda>(i, n). runWord d (xs @ [x]) i n) rs = map (\<lambda>(i, n). runWord d xs i n) rs"
proof (rule map_cong [OF refl])
  fix p assume "p \<in> set rs"
  with assms have "closedRun xs (fst p) (snd p)" by (cases p) auto
  then have "fst p + snd p \<le> length xs" "fst p < length xs" by (auto simp: closedRun_def)
  then show "(case p of (i, n) \<Rightarrow> runWord d (xs @ [x]) i n) = (case p of (i, n) \<Rightarrow> runWord d xs i n)"
    by (cases p) (simp add: runWord_snoc_inside)
qed

lemma scanInvI:
  assumes "ws = map (\<lambda>(i, n). runWord d xs i n) rs"
    and "sorted_wrt (\<lambda>a b. fst a + snd a < fst b) rs"
    and "\<forall>i n. (i, n) \<in> set rs \<longleftrightarrow> closedRun xs i n"
    and "case cur of None \<Rightarrow> xs = [] \<or> \<not> occ (last xs)
         | Some w \<Rightarrow> (\<exists>i. openRun xs i \<and> w = runWord d xs i (length xs - i))"
  shows "scanInv d xs (ws, cur)"
  unfolding scanInv_def fst_conv snd_conv using assms by blast

lemma scanInv_step:
  assumes inv: "scanInv d xs st"
  shows "scanInv d (xs @ [x]) (scanTile d st x)"
proof -
  obtain ws cur where st: "st = (ws, cur)" by (cases st)
  from inv obtain rs where
    ws: "ws = map (\<lambda>(i, n). runWord d xs i n) rs"
    and srt: "sorted_wrt (\<lambda>a b. fst a + snd a < fst b) rs"
    and mem: "\<forall>i n. (i, n) \<in> set rs \<longleftrightarrow> closedRun xs i n"
    unfolding scanInv_def st fst_conv by blast
  from mem have ws': "ws = map (\<lambda>(i, n). runWord d (xs @ [x]) i n) rs"
    by (simp add: ws map_runWord_snoc)
  show ?thesis
  proof (cases cur)
    case None
    with inv have last: "xs = [] \<or> \<not> occ (last xs)"
      unfolding scanInv_def st snd_conv by simp
    then have noopen: "\<And>i. \<not> openRun xs i" using openRun_last by blast
    show ?thesis
    proof (cases "occ x")
      case True
      then have res: "scanTile d st x
          = (ws, Some \<lparr>word = the (charOf x), word_row = row x, word_col = col x, direction = d\<rparr>)"
        using None st by (simp add: occ_def)
      have o: "openRun (xs @ [x]) (length xs)"
        using last True by (simp add: openRun_snoc_occ)
      have m: "\<forall>i n. (i, n) \<in> set rs \<longleftrightarrow> closedRun (xs @ [x]) i n"
        using mem True by (simp add: closedRun_snoc_occ)
      have c: "\<exists>i. openRun (xs @ [x]) i \<and>
          \<lparr>word = the (charOf x), word_row = row x, word_col = col x, direction = d\<rparr>
            = runWord d (xs @ [x]) i (length (xs @ [x]) - i)"
        by (rule exI [of _ "length xs"]) (simp add: o runWord_snoc_new)
      show ?thesis unfolding res
        by (rule scanInvI [OF ws' srt m]) (simp only: option.case c)
    next
      case False
      then have res: "scanTile d st x = (ws, None)"
        using None st by (simp add: occ_def)
      have m: "\<forall>i n. (i, n) \<in> set rs \<longleftrightarrow> closedRun (xs @ [x]) i n"
        using mem noopen by (simp add: closedRun_snoc_empty [OF False])
      show ?thesis unfolding res
        by (rule scanInvI [OF ws' srt m]) (simp add: False)
    qed
  next
    case (Some w)
    with inv obtain i where op: "openRun xs i" and w: "w = runWord d xs i (length xs - i)"
      unfolding scanInv_def st snd_conv by auto
    from op have i: "i < length xs" by (simp add: openRun_def)
    show ?thesis
    proof (cases "occ x")
      case True
      then have res: "scanTile d st x = (ws, Some (w\<lparr>word := word w @ the (charOf x)\<rparr>))"
        using Some st by (simp add: occ_def)
      have o: "openRun (xs @ [x]) i" using op True by (simp add: openRun_snoc_occ)
      have e: "w\<lparr>word := word w @ the (charOf x)\<rparr> = runWord d (xs @ [x]) i (length (xs @ [x]) - i)"
        using runWord_snoc_extend [OF i, of d x] w by simp
      have m: "\<forall>i n. (i, n) \<in> set rs \<longleftrightarrow> closedRun (xs @ [x]) i n"
        using mem True by (simp add: closedRun_snoc_occ)
      have c: "\<exists>i. openRun (xs @ [x]) i \<and>
          w\<lparr>word := word w @ the (charOf x)\<rparr> = runWord d (xs @ [x]) i (length (xs @ [x]) - i)"
        using o e by blast
      show ?thesis unfolding res
        by (rule scanInvI [OF ws' srt m]) (simp only: option.case c)
    next
      case False
      then have res: "scanTile d st x = (ws @ [w], None)"
        using Some st by (simp add: occ_def)
      let ?rs = "rs @ [(i, length xs - i)]"
      have w': "w = runWord d (xs @ [x]) i (length xs - i)"
        using w i by (simp add: runWord_snoc_inside)
      have 1: "ws @ [w] = map (\<lambda>(i, n). runWord d (xs @ [x]) i n) ?rs"
        using ws' w' by simp
      have "\<forall>p\<in>set rs. fst p + snd p < i"
      proof
        fix p assume "p \<in> set rs"
        with mem have "closedRun xs (fst p) (snd p)" by (cases p) simp
        from closed_before_open [OF this op] show "fst p + snd p < i" .
      qed
      with srt have 2: "sorted_wrt (\<lambda>a b. fst a + snd a < fst b) ?rs"
        by (simp add: sorted_wrt_append)
      have 3: "\<forall>j m. (j, m) \<in> set ?rs \<longleftrightarrow> closedRun (xs @ [x]) j m"
      proof (intro allI)
        fix j m
        have "openRun xs j \<and> m = length xs - j \<longleftrightarrow> j = i \<and> m = length xs - i"
          using op openRun_unique [OF op, of j] by blast
        then show "(j, m) \<in> set ?rs \<longleftrightarrow> closedRun (xs @ [x]) j m"
          using mem by (simp add: closedRun_snoc_empty [OF False]) blast
      qed
      show ?thesis unfolding res
        by (rule scanInvI [OF 1 2 3]) (simp add: False)
    qed
  qed
qed

lemma scanInv_foldl: "scanInv d xs (foldl (scanTile d) ([], None) xs)"
proof (induction xs rule: rev_induct)
  case Nil
  show ?case by (simp add: scanInv_def closedRun_def)
next
  case (snoc x xs)
  from scanInv_step [OF snoc] show ?case by simp
qed

lemma scanLine_runs:
  "\<exists>rs. flush (foldl (scanTile d) ([], None) xs) = map (\<lambda>(i, n). runWord d xs i n) rs \<and>
        sorted_wrt (\<lambda>a b. fst a + snd a < fst b) rs \<and>
        (\<forall>i n. (i, n) \<in> set rs \<longleftrightarrow> maxRun occ xs i n)"
proof -
  obtain ws cur where st: "foldl (scanTile d) ([], None) xs = (ws, cur)"
    by (cases "foldl (scanTile d) ([], None) xs")
  have inv: "scanInv d xs (ws, cur)" using scanInv_foldl [of d xs] by (simp only: st)
  from inv obtain rs where
    ws: "ws = map (\<lambda>(i, n). runWord d xs i n) rs"
    and srt: "sorted_wrt (\<lambda>a b. fst a + snd a < fst b) rs"
    and mem: "\<forall>i n. (i, n) \<in> set rs \<longleftrightarrow> closedRun xs i n"
    unfolding scanInv_def fst_conv by blast
  show ?thesis
  proof (cases cur)
    case None
    with inv have "xs = [] \<or> \<not> occ (last xs)" unfolding scanInv_def snd_conv by simp
    then have "\<And>i. \<not> openRun xs i" using openRun_last by blast
    with mem have 3: "\<forall>i n. (i, n) \<in> set rs \<longleftrightarrow> maxRun occ xs i n" by (simp add: maxRun_iff)
    have 1: "flush (foldl (scanTile d) ([], None) xs) = map (\<lambda>(i, n). runWord d xs i n) rs"
      by (simp add: st None ws)
    from 1 srt 3 show ?thesis by blast
  next
    case (Some w)
    with inv obtain i where
      op: "openRun xs i" and w: "w = runWord d xs i (length xs - i)"
      unfolding scanInv_def snd_conv by auto
    let ?rs = "rs @ [(i, length xs - i)]"
    have 1: "flush (foldl (scanTile d) ([], None) xs) = map (\<lambda>(i, n). runWord d xs i n) ?rs"
      by (simp add: st Some ws w)
    have "\<forall>p\<in>set rs. fst p + snd p < i"
    proof
      fix p assume "p \<in> set rs"
      with mem have "closedRun xs (fst p) (snd p)" by (cases p) simp
      from closed_before_open [OF this op] show "fst p + snd p < i" .
    qed
    with srt have 2: "sorted_wrt (\<lambda>a b. fst a + snd a < fst b) ?rs"
      by (simp add: sorted_wrt_append)
    have 3: "\<forall>j m. (j, m) \<in> set ?rs \<longleftrightarrow> maxRun occ xs j m"
    proof (intro allI)
      fix j m
      have "openRun xs j \<and> m = length xs - j \<longleftrightarrow> j = i \<and> m = length xs - i"
        using op openRun_unique [OF op, of j] by blast
      then show "(j, m) \<in> set ?rs \<longleftrightarrow> maxRun occ xs j m"
        using mem by (simp add: maxRun_iff) blast
    qed
    from 1 2 3 show ?thesis by blast
  qed
qed

lemma list_all_enumerate:
  "list_all P (enumerate k xs) \<longleftrightarrow> (\<forall>i<length xs. P (k + i, xs ! i))"
  by (auto simp: list_all_length nth_enumerate_eq)

lemma wellFormed_iff:
  "wellFormed ts \<longleftrightarrow>
     ts \<noteq> [] \<and>
     (\<forall>r<length ts. length (ts ! r) = length (hd ts) \<and>
        (\<forall>c<length (hd ts). row (ts ! r ! c) = r \<and> col (ts ! r ! c) = c \<and> singleChar (ts ! r ! c)))"
  unfolding wellFormed_def list_all_enumerate by auto

lemma occ_occupied: "singleChar t \<Longrightarrow> occ t \<longleftrightarrow> occupied t"
  by (auto simp: occ_def occupied_def singleChar_def truthy_def charOf_def split: option.splits)

lemma maxRun_cong:
  assumes "\<forall>t\<in>set ln. P t = Q t"
  shows "maxRun P ln i n = maxRun Q ln i n"
proof (cases "0 < n \<and> i + n \<le> length ln")
  case True
  have "\<And>t. t \<in> set (take n (drop i ln)) \<Longrightarrow> P t = Q t"
    using assms by (meson in_set_takeD in_set_dropD)
  then have "list_all P (take n (drop i ln)) = list_all Q (take n (drop i ln))"
    unfolding list_all_iff by blast
  moreover have "i = 0 \<or> P (ln ! (i - 1)) = Q (ln ! (i - 1))"
    using assms True by (cases i) auto
  moreover have "i + n = length ln \<or> P (ln ! (i + n)) = Q (ln ! (i + n))"
    using assms True by (cases "i + n = length ln") auto
  ultimately show ?thesis unfolding maxRun_def by blast
next
  case False
  then show ?thesis unfolding maxRun_def by auto
qed

lemma length_toLowerCase [simp]: "length (toLowerCase s) = length s"
  by (simp add: toLowerCase_def)

lemma run_letters:
  assumes "\<forall>t\<in>set seg. singleChar t \<and> occupied t"
  shows "concat (map (\<lambda>tile. the (charOf tile)) seg) = lettersOf seg \<and> length (lettersOf seg) = length seg"
  using assms
proof (induction seg)
  case Nil
  show ?case by (simp add: lettersOf_def)
next
  case (Cons t seg)
  then have "singleChar t" "occupied t" by auto
  then obtain l where l: "letter t = Some l" "length (letter_char l) = 1"
    by (auto simp: singleChar_def occupied_def)
  with Cons show ?case by (simp add: lettersOf_def charOf_def)
qed

lemma maxRun_segment:
  assumes "maxRun P ln i n"
  shows "0 < n" "i < length ln" "i + n \<le> length ln" "\<forall>t\<in>set (take n (drop i ln)). P t"
    "length (take n (drop i ln)) = n"
  using assms by (auto simp: maxRun_def list_all_iff)

lemma lineCoords_single:
  "lineCoords d lns \<Longrightarrow> a < length lns \<Longrightarrow> t \<in> set (lns ! a) \<Longrightarrow> singleChar t"
  by (auto simp: lineCoords_def in_set_conv_nth)

lemma runWord_candidate:
  assumes lc: "lineCoords d lns" and a: "a < length lns" and mr: "maxRun occ (lns ! a) i n"
  shows "(runWord d (lns ! a) i n)\<lparr>word := toLowerCase (word (runWord d (lns ! a) i n))\<rparr>
           = candidate d (lns ! a) a i n"
    and "length (word (runWord d (lns ! a) i n)) = n"
proof -
  let ?ln = "lns ! a"
  let ?seg = "take n (drop i ?ln)"
  note seg = maxRun_segment [OF mr]
  have "\<forall>t\<in>set ?seg. singleChar t \<and> occupied t"
  proof
    fix t assume t: "t \<in> set ?seg"
    then have "t \<in> set ?ln" by (meson in_set_takeD in_set_dropD)
    then have sc: "singleChar t" by (rule lineCoords_single [OF lc a])
    moreover from seg(4) t have "occ t" by blast
    ultimately show "singleChar t \<and> occupied t" by (simp add: occ_occupied)
  qed
  from run_letters [OF this] seg(5)
  have w: "word (runWord d ?ln i n) = lettersOf ?seg" and len: "length (lettersOf ?seg) = n"
    by (simp_all add: runWord_def)
  from w len show "length (word (runWord d ?ln i n)) = n" by simp
  from lc a seg(2) have "case d of LeftToRight \<Rightarrow> row (?ln ! i) = a \<and> col (?ln ! i) = i
                 | TopToBottom \<Rightarrow> row (?ln ! i) = i \<and> col (?ln ! i) = a"
    unfolding lineCoords_def by blast
  then show "(runWord d ?ln i n)\<lparr>word := toLowerCase (word (runWord d ?ln i n))\<rparr> = candidate d ?ln a i n"
    unfolding w by (cases d) (simp_all add: runWord_def candidate_def)
qed

lemma line_words:
  assumes lc: "lineCoords d lns" and a: "a < length lns"
  shows "\<exists>rs. finishWords (scanLine d (lns ! a)) = map (\<lambda>(i, n). candidate d (lns ! a) a i n) rs \<and>
           sorted_wrt (\<lambda>p q. fst p + snd p < fst q) rs \<and>
           (\<forall>i n. (i, n) \<in> set rs \<longleftrightarrow> 2 \<le> n \<and> maxRun occupied (lns ! a) i n)"
proof -
  let ?ln = "lns ! a"
  from scanLine_runs [of d ?ln] obtain rs0 where
    sl: "scanLine d ?ln = map (\<lambda>(i, n). runWord d ?ln i n) rs0"
    and srt: "sorted_wrt (\<lambda>a b. fst a + snd a < fst b) rs0"
    and mem: "\<forall>i n. (i, n) \<in> set rs0 \<longleftrightarrow> maxRun occ ?ln i n"
    unfolding scanLine_def by blast
  have eqP: "maxRun occ ?ln i n = maxRun occupied ?ln i n" for i n
    by (rule maxRun_cong) (auto simp: occ_occupied lineCoords_single [OF lc a])
  let ?rs = "filter (\<lambda>p. 2 \<le> snd p) rs0"
  have f: "filter (\<lambda>w. 1 < length (word w)) (map (\<lambda>(i, n). runWord d ?ln i n) rs0)
         = map (\<lambda>(i, n). runWord d ?ln i n) ?rs"
    unfolding filter_map
  proof (rule arg_cong [where f = "map _"], rule filter_cong [OF refl])
    fix p assume "p \<in> set rs0"
    with mem have "maxRun occ ?ln (fst p) (snd p)" by (cases p) simp
    from runWord_candidate(2) [OF lc a this]
    show "((\<lambda>w. 1 < length (word w)) \<circ> (\<lambda>(i, n). runWord d ?ln i n)) p = (2 \<le> snd p)"
      by (cases p) auto
  qed
  have m: "map (\<lambda>w. w\<lparr>word := toLowerCase (word w)\<rparr>) (map (\<lambda>(i, n). runWord d ?ln i n) ?rs)
         = map (\<lambda>(i, n). candidate d ?ln a i n) ?rs"
    unfolding map_map
  proof (rule map_cong [OF refl])
    fix p assume "p \<in> set ?rs"
    with mem have "maxRun occ ?ln (fst p) (snd p)" by (cases p) simp
    from runWord_candidate(1) [OF lc a this]
    show "((\<lambda>w. w\<lparr>word := toLowerCase (word w)\<rparr>) \<circ> (\<lambda>(i, n). runWord d ?ln i n)) p
        = (case p of (i, n) \<Rightarrow> candidate d ?ln a i n)"
      by (cases p) simp
  qed
  have 1: "finishWords (scanLine d ?ln) = map (\<lambda>(i, n). candidate d ?ln a i n) ?rs"
    unfolding finishWords_def sl f m ..
  have 2: "sorted_wrt (\<lambda>p q. fst p + snd p < fst q) ?rs"
    using srt by (rule sorted_wrt_filter)
  have 3: "\<forall>i n. (i, n) \<in> set ?rs \<longleftrightarrow> 2 \<le> n \<and> maxRun occupied ?ln i n"
    using mem eqP by auto
  from 1 2 3 show ?thesis by blast
qed

lemma length_candidate:
  "i + n \<le> length ln \<Longrightarrow> \<forall>t\<in>set (take n (drop i ln)). singleChar t \<and> occupied t \<Longrightarrow>
   length (word (candidate d ln a i n)) = n"
  using run_letters [of "take n (drop i ln)"] by (simp add: candidate_def)

lemma sorted_wrt_concat:
  "sorted_wrt R (concat xss) \<longleftrightarrow>
     (\<forall>xs\<in>set xss. sorted_wrt R xs) \<and> sorted_wrt (\<lambda>xs ys. \<forall>x\<in>set xs. \<forall>y\<in>set ys. R x y) xss"
  by (induction xss) (auto simp: sorted_wrt_append)

lemma finishWords_concat: "finishWords (concat xss) = concat (map finishWords xss)"
  by (induction xss) (simp_all add: finishWords_def)

lemma lines_words_mem:
  assumes lc: "lineCoords d lns"
  shows "w \<in> set (finishWords (concat (map (scanLine d) lns))) \<longleftrightarrow>
     (\<exists>a i n. a < length lns \<and> 2 \<le> n \<and> maxRun occupied (lns ! a) i n \<and> w = candidate d (lns ! a) a i n)"
proof
  assume "w \<in> set (finishWords (concat (map (scanLine d) lns)))"
  then obtain ln where "ln \<in> set lns" and w0: "w \<in> set (finishWords (scanLine d ln))"
    by (auto simp: finishWords_concat)
  then obtain a where a: "a < length lns" and w: "w \<in> set (finishWords (scanLine d (lns ! a)))"
    by (auto simp: in_set_conv_nth)
  from line_words [OF lc a] w obtain i n where "2 \<le> n" "maxRun occupied (lns ! a) i n"
    "w = candidate d (lns ! a) a i n" by auto
  with a show "\<exists>a i n. a < length lns \<and> 2 \<le> n \<and> maxRun occupied (lns ! a) i n \<and> w = candidate d (lns ! a) a i n"
    by blast
next
  assume "\<exists>a i n. a < length lns \<and> 2 \<le> n \<and> maxRun occupied (lns ! a) i n \<and> w = candidate d (lns ! a) a i n"
  then obtain a i n where a: "a < length lns" and n: "2 \<le> n" "maxRun occupied (lns ! a) i n"
    and w: "w = candidate d (lns ! a) a i n" by blast
  from line_words [OF lc a] obtain rs where
    1: "finishWords (scanLine d (lns ! a)) = map (\<lambda>(i, n). candidate d (lns ! a) a i n) rs"
    and 3: "\<forall>i n. (i, n) \<in> set rs \<longleftrightarrow> 2 \<le> n \<and> maxRun occupied (lns ! a) i n" by blast
  from 3 n have "(i, n) \<in> set rs" by simp
  then have "w \<in> set (finishWords (scanLine d (lns ! a)))"
    unfolding 1 w by force
  with a show "w \<in> set (finishWords (concat (map (scanLine d) lns)))"
    by (auto simp: finishWords_concat)
qed

lemma lineOf_candidate [simp]: "lineOf d (candidate d ln a i n) = a"
  by (cases d) (simp_all add: lineOf_def candidate_def)

lemma offsetOf_candidate [simp]: "offsetOf d (candidate d ln a i n) = i"
  by (cases d) (simp_all add: offsetOf_def candidate_def)

lemma maxRun_occupied_length:
  assumes lc: "lineCoords d lns" and a: "a < length lns" and mr: "maxRun occupied (lns ! a) i n"
  shows "length (word (candidate d (lns ! a) a i n)) = n"
proof (rule length_candidate)
  note seg = maxRun_segment [OF mr]
  show "i + n \<le> length (lns ! a)" by (rule seg(3))
  show "\<forall>t\<in>set (take n (drop i (lns ! a))). singleChar t \<and> occupied t"
  proof
    fix t assume t: "t \<in> set (take n (drop i (lns ! a)))"
    then have "t \<in> set (lns ! a)" by (meson in_set_takeD in_set_dropD)
    then have "singleChar t" by (rule lineCoords_single [OF lc a])
    with seg(4) t show "singleChar t \<and> occupied t" by blast
  qed
qed

lemma lines_words_sorted:
  assumes lc: "lineCoords d lns"
  shows "sorted_wrt (inOrder d) (finishWords (concat (map (scanLine d) lns)))"
proof -
  let ?g = "\<lambda>ln. finishWords (scanLine d ln)"
  have eq: "finishWords (concat (map (scanLine d) lns)) = concat (map ?g lns)"
    by (simp add: finishWords_concat comp_def)
  have within: "sorted_wrt (inOrder d) (?g (lns ! a)) \<and> (\<forall>w\<in>set (?g (lns ! a)). lineOf d w = a)"
    if a: "a < length lns" for a
  proof -
    from line_words [OF lc a] obtain rs where
      1: "?g (lns ! a) = map (\<lambda>(i, n). candidate d (lns ! a) a i n) rs"
      and 2: "sorted_wrt (\<lambda>p q. fst p + snd p < fst q) rs"
      and 3: "\<forall>i n. (i, n) \<in> set rs \<longleftrightarrow> 2 \<le> n \<and> maxRun occupied (lns ! a) i n" by blast
    have "sorted_wrt (\<lambda>p q. inOrder d (case p of (i, n) \<Rightarrow> candidate d (lns ! a) a i n)
                                        (case q of (i, n) \<Rightarrow> candidate d (lns ! a) a i n)) rs"
    proof (rule sorted_wrt_mono_rel [OF _ 2])
      fix p q assume p: "p \<in> set rs" and "q \<in> set rs" and lt: "fst p + snd p < fst q"
      from p have "(fst p, snd p) \<in> set rs" by simp
      with 3 have "maxRun occupied (lns ! a) (fst p) (snd p)" by blast
      from maxRun_occupied_length [OF lc a this] lt
      show "inOrder d (case p of (i, n) \<Rightarrow> candidate d (lns ! a) a i n)
                      (case q of (i, n) \<Rightarrow> candidate d (lns ! a) a i n)"
        by (cases p; cases q) (simp add: inOrder_def)
    qed
    then have "sorted_wrt (inOrder d) (?g (lns ! a))"
      unfolding 1 sorted_wrt_map .
    moreover have "\<forall>w\<in>set (?g (lns ! a)). lineOf d w = a"
      unfolding 1 by auto
    ultimately show ?thesis by blast
  qed
  have "\<forall>xs\<in>set (map ?g lns). sorted_wrt (inOrder d) xs"
    using within by (auto simp: in_set_conv_nth)
  moreover have "sorted_wrt (\<lambda>xs ys. \<forall>x\<in>set xs. \<forall>y\<in>set ys. inOrder d x y) (map ?g lns)"
    unfolding sorted_wrt_iff_nth_less
  proof (intro allI impI)
    fix a b assume ab: "a < b" and b: "b < length (map ?g lns)"
    then have a': "a < length lns" and b': "b < length lns" by auto
    from within [OF a'] within [OF b'] ab
    show "\<forall>x\<in>set (map ?g lns ! a). \<forall>y\<in>set (map ?g lns ! b). inOrder d x y"
      using a' b' by (auto simp: inOrder_def)
  qed
  ultimately show ?thesis unfolding eq sorted_wrt_concat by blast
qed

lemma scanTile_prefix:
  "scanTile d (ws, cur) x = (ws @ fst (scanTile d ([], cur) x), snd (scanTile d ([], cur) x))"
  by (cases cur) (simp_all add: Let_def)

lemma foldl_scanTile_prefix:
  "foldl (scanTile d) (ws, cur) xs
     = (ws @ fst (foldl (scanTile d) ([], cur) xs), snd (foldl (scanTile d) ([], cur) xs))"
proof (induction xs arbitrary: ws cur)
  case Nil
  show ?case by simp
next
  case (Cons x xs)
  obtain a c where s: "scanTile d ([], cur) x = (a, c)" by (cases "scanTile d ([], cur) x")
  have 1: "scanTile d (ws, cur) x = (ws @ a, c)"
    by (subst scanTile_prefix) (simp only: s fst_conv snd_conv)
  have A: "foldl (scanTile d) (ws @ a, c) xs
      = ((ws @ a) @ fst (foldl (scanTile d) ([], c) xs), snd (foldl (scanTile d) ([], c) xs))"
    by (rule Cons.IH)
  have B: "foldl (scanTile d) (a, c) xs
      = (a @ fst (foldl (scanTile d) ([], c) xs), snd (foldl (scanTile d) ([], c) xs))"
    by (rule Cons.IH)
  show ?case
    by (simp only: foldl_Cons 1 s A B fst_conv snd_conv append_assoc)
qed

lemma flush_foldl_prefix:
  "flush (foldl (scanTile d) (ws, None) xs) = ws @ scanLine d xs"
proof -
  obtain a c where s: "foldl (scanTile d) ([], None) xs = (a, c)"
    by (cases "foldl (scanTile d) ([], None) xs")
  show ?thesis
    unfolding scanLine_def by (subst foldl_scanTile_prefix) (cases c; simp add: s)
qed

lemma scanColumn_foldl:
  "\<forall>rw\<in>set ts. c < length rw \<Longrightarrow>
     scanColumn c ts st = Inr (foldl (scanTile TopToBottom) st (column ts c))"
  by (induction ts arbitrary: st) (simp_all add: column_def at_def)

lemma scanColumns_concat:
  "\<forall>c\<in>set cs. \<forall>rw\<in>set ts. c < length rw \<Longrightarrow>
     scanColumns ts cs ws = Inr (ws @ concat (map (\<lambda>c. scanLine TopToBottom (column ts c)) cs))"
proof (induction cs arbitrary: ws)
  case Nil
  show ?case by simp
next
  case (Cons c cs)
  then have "scanColumn c ts (ws, None) = Inr (foldl (scanTile TopToBottom) (ws, None) (column ts c))"
    by (simp add: scanColumn_foldl)
  with Cons show ?case by (simp add: flush_foldl_prefix)
qed

lemma wellFormed_rows:
  assumes "wellFormed ts"
  shows "\<forall>rw\<in>set ts. length rw = length (hd ts)"
  using assms by (auto simp: wellFormed_iff in_set_conv_nth)

lemma getWordsFromTilesTTB_wellFormed:
  assumes wf: "wellFormed ts"
  shows "getWordsFromTilesTTB ts
       = Inr (finishWords (concat (map (scanLine TopToBottom) (map (column ts) [0..<length (hd ts)]))))"
proof -
  from wf have ne: "ts \<noteq> []" by (simp add: wellFormed_iff)
  then have at0: "at ts 0 = Some (hd ts)" by (cases ts) (simp_all add: at_def)
  have "\<forall>c\<in>set [0..<length (hd ts)]. \<forall>rw\<in>set ts. c < length rw"
    using wellFormed_rows [OF wf] by auto
  from scanColumns_concat [OF this, of "[]"] show ?thesis
    by (simp add: getWordsFromTilesTTB_def at0 comp_def)
qed

lemma getWordsFromTilesLTR_scanLine:
  "getWordsFromTilesLTR ts = finishWords (concat (map (scanLine LeftToRight) ts))"
proof -
  have "scanRow = scanLine LeftToRight" by (rule ext) (simp add: scanRow_def scanLine_def)
  then show ?thesis by (simp add: getWordsFromTilesLTR_def)
qed

lemma lineCoords_rows: "wellFormed ts \<Longrightarrow> lineCoords LeftToRight ts"
  by (simp add: wellFormed_iff lineCoords_def)

lemma lineCoords_columns:
  "wellFormed ts \<Longrightarrow> lineCoords TopToBottom (map (column ts) [0..<length (hd ts)])"
  by (simp add: wellFormed_iff lineCoords_def column_def)

section \<open>The word extractors\<close>

text \<open>
  Claim C3.  On a grid that satisfies the grid invariant, the row-wise extractor returns
  exactly one candidate for every maximal run of two or more occupied tiles of a row,
  and nothing else: the candidate's text is the lowercased concatenation of the run's
  letters, its origin the position of the run's first tile.  The list is ordered by row
  and, within a row, by column, each candidate ending before the next begins.  The
  column-wise extractor returns normally and does the same for the columns, ordered by
  column and then by row.  A run is maximal when it is bounded on each side by an empty
  tile or by the end of the line, so one empty tile ends a run and a run that reaches
  the end of its line is a candidate as well; runs of length one are no candidates.
\<close>

theorem extractors_return_maximal_runs:
  assumes "wellFormed ts"
  shows "(\<forall>w. w \<in> set (getWordsFromTilesLTR ts) \<longleftrightarrow>
            (\<exists>r c n. r < length ts \<and> 2 \<le> n \<and> maxRun occupied (ts ! r) c n \<and>
               w = \<lparr>word = toLowerCase (lettersOf (take n (drop c (ts ! r)))),
                    word_row = r, word_col = c, direction = LeftToRight\<rparr>)) \<and>
         sorted_wrt (\<lambda>w w'. word_row w < word_row w' \<or>
                      (word_row w = word_row w' \<and> word_col w + length (word w) < word_col w'))
           (getWordsFromTilesLTR ts) \<and>
         (\<exists>ttb. getWordsFromTilesTTB ts = Inr ttb \<and>
            (\<forall>w. w \<in> set ttb \<longleftrightarrow>
               (\<exists>c r n. c < length (hd ts) \<and> 2 \<le> n \<and> maxRun occupied (column ts c) r n \<and>
                  w = \<lparr>word = toLowerCase (lettersOf (take n (drop r (column ts c)))),
                       word_row = r, word_col = c, direction = TopToBottom\<rparr>)) \<and>
            sorted_wrt (\<lambda>w w'. word_col w < word_col w' \<or>
                         (word_col w = word_col w' \<and> word_row w + length (word w) < word_row w'))
              ttb)"
proof (intro conjI)
  note lr = lineCoords_rows [OF assms]
  show "\<forall>w. w \<in> set (getWordsFromTilesLTR ts) \<longleftrightarrow>
            (\<exists>r c n. r < length ts \<and> 2 \<le> n \<and> maxRun occupied (ts ! r) c n \<and>
               w = \<lparr>word = toLowerCase (lettersOf (take n (drop c (ts ! r)))),
                    word_row = r, word_col = c, direction = LeftToRight\<rparr>)"
    unfolding getWordsFromTilesLTR_scanLine lines_words_mem [OF lr]
    by (simp add: candidate_def)
  show "sorted_wrt (\<lambda>w w'. word_row w < word_row w' \<or>
                      (word_row w = word_row w' \<and> word_col w + length (word w) < word_col w'))
           (getWordsFromTilesLTR ts)"
    using lines_words_sorted [OF lr]
    unfolding getWordsFromTilesLTR_scanLine inOrder_def lineOf_def offsetOf_def by simp
next
  note lc = lineCoords_columns [OF assms]
  let ?ttb = "finishWords (concat (map (scanLine TopToBottom) (map (column ts) [0..<length (hd ts)])))"
  have 1: "getWordsFromTilesTTB ts = Inr ?ttb"
    by (rule getWordsFromTilesTTB_wellFormed [OF assms])
  have 2: "\<forall>w. w \<in> set ?ttb \<longleftrightarrow>
               (\<exists>c r n. c < length (hd ts) \<and> 2 \<le> n \<and> maxRun occupied (column ts c) r n \<and>
                  w = \<lparr>word = toLowerCase (lettersOf (take n (drop r (column ts c)))),
                       word_row = r, word_col = c, direction = TopToBottom\<rparr>)"
    unfolding lines_words_mem [OF lc]
    by (simp add: candidate_def cong: conj_cong)
  have 3: "sorted_wrt (\<lambda>w w'. word_col w < word_col w' \<or>
                         (word_col w = word_col w' \<and> word_row w + length (word w) < word_row w'))
              ?ttb"
    using lines_words_sorted [OF lc]
    unfolding inOrder_def lineOf_def offsetOf_def by simp
  from 1 2 3 show "\<exists>ttb. getWordsFromTilesTTB ts = Inr ttb \<and>
            (\<forall>w. w \<in> set ttb \<longleftrightarrow>
               (\<exists>c r n. c < length (hd ts) \<and> 2 \<le> n \<and> maxRun occupied (column ts c) r n \<and>
                  w = \<lparr>word = toLowerCase (lettersOf (take n (drop r (column ts c)))),
                       word_row = r, word_col = c, direction = TopToBottom\<rparr>)) \<and>
            sorted_wrt (\<lambda>w w'. word_col w < word_col w' \<or>
                         (word_col w = word_col w' \<and> word_row w + length (word w) < word_row w'))
              ttb"
    by blast
qed

theorem extractors_return_maximal_runs_witness:
  "wellFormed (tiles (mkBoard [''CAT'', ''O..'', ''T.A''])) \<and>
   getWordsFromTilesLTR (tiles (mkBoard [''CAT'', ''O..'', ''T.A'']))
     = [\<lparr>word = ''cat'', word_row = 0, word_col = 0, direction = LeftToRight\<rparr>] \<and>
   getWordsFromTilesTTB (tiles (mkBoard [''CAT'', ''O..'', ''T.A'']))
     = Inr [\<lparr>word = ''cot'', word_row = 0, word_col = 0, direction = TopToBottom\<rparr>] \<and>
   (\<exists>r c n. r < length (tiles (mkBoard [''CAT'', ''O..'', ''T.A''])) \<and> 2 \<le> n \<and>
      maxRun occupied (tiles (mkBoard [''CAT'', ''O..'', ''T.A'']) ! r) c n \<and>
      \<lparr>word = ''cat'', word_row = 0, word_col = 0, direction = LeftToRight\<rparr>
        = \<lparr>word = toLowerCase (lettersOf (take n (drop c (tiles (mkBoard [''CAT'', ''O..'', ''T.A'']) ! r)))),
           word_row = r, word_col = c, direction = LeftToRight\<rparr>)"
proof -
  let ?ts = "tiles (mkBoard [''CAT'', ''O..'', ''T.A''])"
  have h: "wellFormed ?ts" by code_simp
  have l: "getWordsFromTilesLTR ?ts = [\<lparr>word = ''cat'', word_row = 0, word_col = 0, direction = LeftToRight\<rparr>]"
    by code_simp
  have t: "getWordsFromTilesTTB ?ts = Inr [\<lparr>word = ''cot'', word_row = 0, word_col = 0, direction = TopToBottom\<rparr>]"
    by code_simp
  have "\<lparr>word = ''cat'', word_row = 0, word_col = 0, direction = LeftToRight\<rparr> \<in> set (getWordsFromTilesLTR ?ts)"
    unfolding l by simp
  with extractors_return_maximal_runs [OF h] h l t show ?thesis by blast
qed

section \<open>The tile states after validation\<close>

lemma covers_spans: "covers gb w r c \<longleftrightarrow> spans w r c \<and> (direction w = TopToBottom \<longrightarrow> r < gb)"
  by (cases "direction w") (auto simp: covers_def spans_def)

lemma validateBoard_Inr:
  "validateBoard dictionary b = Inr (b', ok) \<longleftrightarrow>
     (\<exists>found marked demoted.
        foundWords (tiles b) = Inr found \<and>
        markWords markValid (length (tiles b)) (map (map initTile) (tiles b))
          (filter (\<lambda>w. word w \<in> dictionary) found) = Inr marked \<and>
        markWords demote (length (tiles b)) marked (filter (\<lambda>w. word w \<notin> dictionary) found) = Inr demoted \<and>
        b' = \<lparr>cursor = cursor b, tiles = demoted\<rparr> \<and>
        ok = list_all (\<lambda>w. word w \<in> dictionary) found)"
  by (auto simp: validateBoard_def Let_def split: sum.splits)

lemma sameGrid_initTile: "sameGrid ts (map (map initTile) ts)"
  by (auto simp: sameGrid_def list_all2_conv_all_nth sameTile_def initTile_def)

lemma state_initTile: "state (initTile t) = (if occupied t then INVALID else IDLE)"
  by (simp add: initTile_def occupied_def)

lemma found_words_wellFormed:
  assumes wf: "wellFormed ts"
  shows "\<exists>found. foundWords ts = Inr found \<and>
     (\<forall>w\<in>set found. 2 \<le> length (word w) \<and>
        (\<forall>r c. spans w r c \<longrightarrow> r < length ts \<and> c < length (hd ts) \<and> occupied (ts ! r ! c)))"
proof -
  let ?ltr = "getWordsFromTilesLTR ts"
  let ?cols = "map (column ts) [0..<length (hd ts)]"
  let ?ttb = "finishWords (concat (map (scanLine TopToBottom) ?cols))"
  note lr = lineCoords_rows [OF wf]
  note lc = lineCoords_columns [OF wf]
  have rows: "\<And>r. r < length ts \<Longrightarrow> length (ts ! r) = length (hd ts)"
    using wf by (simp add: wellFormed_iff)
  have t: "getWordsFromTilesTTB ts = Inr ?ttb" by (rule getWordsFromTilesTTB_wellFormed [OF wf])
  then have f: "foundWords ts = Inr (?ltr @ ?ttb)" by (simp add: foundWords_def)
  have "2 \<le> length (word w) \<and>
        (\<forall>r c. spans w r c \<longrightarrow> r < length ts \<and> c < length (hd ts) \<and> occupied (ts ! r ! c))"
    if w: "w \<in> set (?ltr @ ?ttb)" for w
  proof -
    from w consider "w \<in> set ?ltr" | "w \<in> set ?ttb" by auto
    then show ?thesis
    proof cases
      case 1
      then obtain a i n where a: "a < length ts" and n: "2 \<le> n"
        and mr: "maxRun occupied (ts ! a) i n" and weq: "w = candidate LeftToRight (ts ! a) a i n"
        unfolding getWordsFromTilesLTR_scanLine lines_words_mem [OF lr] by blast
      have len: "length (word w) = n" unfolding weq by (rule maxRun_occupied_length [OF lr a mr])
      note seg = maxRun_segment [OF mr]
      have "r < length ts \<and> c < length (hd ts) \<and> occupied (ts ! r ! c)" if sp: "spans w r c" for r c
      proof -
        from sp len have r: "r = a" and c: "i \<le> c" "c < i + n"
          by (simp_all add: spans_def weq candidate_def)
        from c seg(3) have cl: "c < length (ts ! a)" by simp
        from c have "c - i < n" by simp
        with seg(3) c have "ts ! a ! c \<in> set (take n (drop i (ts ! a)))"
          by (auto simp: in_set_conv_nth intro!: exI [of _ "c - i"])
        with seg(4) have "occupied (ts ! a ! c)" by blast
        with r a cl rows [OF a] show ?thesis by simp
      qed
      with len n show ?thesis by blast
    next
      case 2
      then obtain a i n where a: "a < length ?cols" and n: "2 \<le> n"
        and mr: "maxRun occupied (?cols ! a) i n" and weq: "w = candidate TopToBottom (?cols ! a) a i n"
        unfolding lines_words_mem [OF lc] by blast
      have len: "length (word w) = n" unfolding weq by (rule maxRun_occupied_length [OF lc a mr])
      from a have a': "a < length (hd ts)" by simp
      then have col: "?cols ! a = column ts a" by simp
      note seg = maxRun_segment [OF mr [unfolded col]]
      have cl: "length (column ts a) = length ts" by (simp add: column_def)
      have "r < length ts \<and> c < length (hd ts) \<and> occupied (ts ! r ! c)" if sp: "spans w r c" for r c
      proof -
        from sp len have c: "c = a" and r: "i \<le> r" "r < i + n"
          by (simp_all add: spans_def weq candidate_def)
        from r seg(3) cl have rl: "r < length ts" by simp
        from r have "r - i < n" by simp
        with seg(3) r have "column ts a ! r \<in> set (take n (drop i (column ts a)))"
          by (auto simp: in_set_conv_nth intro!: exI [of _ "r - i"])
        with seg(4) have "occupied (column ts a ! r)" by blast
        with rl have "occupied (ts ! r ! a)" by (simp add: column_def)
        with c a' rl show ?thesis by simp
      qed
      with len n show ?thesis by blast
    qed
  qed
  with f show ?thesis by blast
qed

lemma found_words_fit:
  assumes wf: "wellFormed ts" and f: "foundWords ts = Inr found" and sg: "sameGrid ts ts'"
    and w: "w \<in> set found"
  shows "fits (length ts) ts' w"
proof -
  from found_words_wellFormed [OF wf] f w
  have sp: "\<And>r c. spans w r c \<Longrightarrow> r < length ts \<and> c < length (hd ts)" and l: "2 \<le> length (word w)"
    by auto
  have rows: "\<And>r. r < length ts \<Longrightarrow> length (ts' ! r) = length (hd ts)"
    using wf sg by (simp add: wellFormed_iff sameGrid_row_length)
  have lts: "length ts' = length ts" using sg by (rule sameGrid_length)
  show ?thesis
  proof (cases "direction w")
    case LeftToRight
    from l have "spans w (word_row w) (word_col w)" "spans w (word_row w) (word_col w + length (word w) - 1)"
      using LeftToRight by (auto simp: spans_def)
    from sp [OF this(1)] sp [OF this(2)] l rows [of "word_row w"] lts LeftToRight
    show ?thesis by (auto simp: fits_def)
  next
    case TopToBottom
    have "word_row w + k < length ts' \<and> word_col w < length (ts' ! (word_row w + k))"
      if "k < length (word w)" for k
    proof -
      from that TopToBottom have "spans w (word_row w + k) (word_col w)" by (simp add: spans_def)
      from sp [OF this] rows [of "word_row w + k"] lts show ?thesis by simp
    qed
    with TopToBottom show ?thesis by (simp add: fits_def)
  qed
qed

lemma validateBoard_total:
  assumes wf: "wellFormed (tiles b)"
  shows "\<exists>b' ok. validateBoard dictionary b = Inr (b', ok)"
proof -
  let ?ts = "tiles b"
  from found_words_wellFormed [OF wf] obtain found where f: "foundWords ?ts = Inr found" by blast
  have "\<forall>w\<in>set (filter (\<lambda>w. word w \<in> dictionary) found). fits (length ?ts) (map (map initTile) ?ts) w"
    using found_words_fit [OF wf f sameGrid_initTile] by simp
  from markWords_total [OF this] obtain marked where
    m: "markWords markValid (length ?ts) (map (map initTile) ?ts) (filter (\<lambda>w. word w \<in> dictionary) found) = Inr marked"
    by blast
  have sg: "sameGrid ?ts marked"
    by (rule sameGrid_trans [OF sameGrid_initTile markWords_sameGrid [OF m]])
  have "\<forall>w\<in>set (filter (\<lambda>w. word w \<notin> dictionary) found). fits (length ?ts) marked w"
    using found_words_fit [OF wf f sg] by simp
  from markWords_total [OF this] obtain demoted where
    d: "markWords demote (length ?ts) marked (filter (\<lambda>w. word w \<notin> dictionary) found) = Inr demoted"
    by blast
  from f m d show ?thesis unfolding validateBoard_Inr by blast
qed

lemma validateBoard_sameGrid:
  assumes "validateBoard dictionary b = Inr (b', ok)"
  shows "sameGrid (tiles b) (tiles b')" "cursor b' = cursor b"
proof -
  from assms obtain found marked demoted where
    m: "markWords markValid (length (tiles b)) (map (map initTile) (tiles b))
          (filter (\<lambda>w. word w \<in> dictionary) found) = Inr marked"
    and d: "markWords demote (length (tiles b)) marked (filter (\<lambda>w. word w \<notin> dictionary) found) = Inr demoted"
    and b': "b' = \<lparr>cursor = cursor b, tiles = demoted\<rparr>"
    unfolding validateBoard_Inr by blast
  from sameGrid_trans [OF sameGrid_initTile sameGrid_trans [OF markWords_sameGrid [OF m] markWords_sameGrid [OF d]]]
  show "sameGrid (tiles b) (tiles b')" by (simp add: b')
  show "cursor b' = cursor b" by (simp add: b')
qed

lemma validateBoard_state:
  assumes v: "validateBoard dictionary b = Inr (b', ok)" and f: "foundWords (tiles b) = Inr found"
    and r: "r < length (tiles b)" and c: "c < length (tiles b ! r)"
  shows "state (tiles b' ! r ! c) =
     (if \<exists>w\<in>set found. word w \<notin> dictionary \<and> covers (length (tiles b)) w r c
      then (if occupied (tiles b ! r ! c) \<or> (\<exists>w\<in>set found. word w \<in> dictionary \<and> covers (length (tiles b)) w r c)
            then INVALID else IDLE)
      else if \<exists>w\<in>set found. word w \<in> dictionary \<and> covers (length (tiles b)) w r c then VALID
      else if occupied (tiles b ! r ! c) then INVALID else IDLE)"
proof -
  let ?ts = "tiles b"
  let ?init = "map (map initTile) ?ts"
  from v f obtain marked demoted where
    m: "markWords markValid (length ?ts) ?init (filter (\<lambda>w. word w \<in> dictionary) found) = Inr marked"
    and d: "markWords demote (length ?ts) marked (filter (\<lambda>w. word w \<notin> dictionary) found) = Inr demoted"
    and b': "b' = \<lparr>cursor = cursor b, tiles = demoted\<rparr>"
    unfolding validateBoard_Inr by auto
  have r0: "r < length ?init" and c0: "c < length (?init ! r)" using r c by simp_all
  have s0: "state (?init ! r ! c) = (if occupied (?ts ! r ! c) then INVALID else IDLE)"
    using r c by (simp add: state_initTile)
  note s1 = markWords_state [OF idem_markValid m r0 c0]
  have sg: "sameGrid ?init marked" by (rule markWords_sameGrid [OF m])
  have r1: "r < length marked" using sg r0 by (simp add: sameGrid_length)
  have c1: "c < length (marked ! r)" using sg r0 c0 by (simp add: sameGrid_row_length)
  note s2 = markWords_state [OF idem_demote d r1 c1]
  show ?thesis
    unfolding b' Board.simps s2 s1 s0
    by (auto simp: markValid_def demote_def)
qed

lemma noPairs_maxRun:
  assumes np: "noPairs ln" and mr: "maxRun occupied ln i n"
  shows "n < 2"
proof (rule ccontr)
  assume "\<not> n < 2"
  then have n: "2 \<le> n" by simp
  note seg = maxRun_segment [OF mr]
  from n seg(3) have i1: "Suc i < length ln" by simp
  have "ln ! i \<in> set (take n (drop i ln))"
    using n seg(3) by (auto simp: in_set_conv_nth intro!: exI [of _ 0])
  moreover have "ln ! Suc i \<in> set (take n (drop i ln))"
    using n seg(3) by (auto simp: in_set_conv_nth intro!: exI [of _ 1])
  ultimately have o: "occupied (ln ! i)" "occupied (ln ! Suc i)" using seg(4) by blast+
  from i1 have "i < length (zip ln (tl ln))" by simp
  moreover from i1 have "zip ln (tl ln) ! i = (ln ! i, ln ! Suc i)" by (simp add: nth_tl)
  ultimately have "(ln ! i, ln ! Suc i) \<in> set (zip ln (tl ln))" by (metis nth_mem)
  with np o show False by (auto simp: noPairs_def list_all_iff)
qed

lemma no_runs_no_words:
  assumes wf: "wellFormed ts"
    and rows: "list_all noPairs ts"
    and cols: "list_all (\<lambda>c. noPairs (column ts c)) [0..<length (hd ts)]"
  shows "foundWords ts = Inr []"
proof -
  let ?cols = "map (column ts) [0..<length (hd ts)]"
  note lr = lineCoords_rows [OF wf]
  note lc = lineCoords_columns [OF wf]
  have "w \<notin> set (getWordsFromTilesLTR ts)" for w
  proof
    assume "w \<in> set (getWordsFromTilesLTR ts)"
    then obtain a i n where a: "a < length ts" and n: "2 \<le> n" and mr: "maxRun occupied (ts ! a) i n"
      unfolding getWordsFromTilesLTR_scanLine lines_words_mem [OF lr] by blast
    from rows a have "noPairs (ts ! a)" by (simp add: list_all_length)
    from noPairs_maxRun [OF this mr] n show False by simp
  qed
  then have 1: "getWordsFromTilesLTR ts = []" by (cases "getWordsFromTilesLTR ts") auto
  have "w \<notin> set (finishWords (concat (map (scanLine TopToBottom) ?cols)))" for w
  proof
    assume "w \<in> set (finishWords (concat (map (scanLine TopToBottom) ?cols)))"
    then obtain a i n where a: "a < length ?cols" and n: "2 \<le> n" and mr: "maxRun occupied (?cols ! a) i n"
      unfolding lines_words_mem [OF lc] by blast
    from cols a have "noPairs (?cols ! a)" by (simp add: list_all_length)
    from noPairs_maxRun [OF this mr] n show False by simp
  qed
  then have 2: "finishWords (concat (map (scanLine TopToBottom) ?cols)) = []"
    by (cases "finishWords (concat (map (scanLine TopToBottom) ?cols))") auto
  show ?thesis
    unfolding foundWords_def getWordsFromTilesTTB_wellFormed [OF wf] 1 2 by simp
qed

lemma sameTile_stripState: "sameTile t t' \<longleftrightarrow> stripState t = stripState t'"
  by (cases t; cases t') (auto simp: sameTile_def stripState_def)

lemma sameGrid_stripState: "sameGrid ts ts' \<longleftrightarrow> map (map stripState) ts = map (map stripState) ts'"
  unfolding sameGrid_def list_all2_conv_all_nth list_eq_iff_nth_eq
  by (auto simp: sameTile_stripState)

lemma scanTile_stripState: "scanTile d st (stripState t) = scanTile d st t"
  by (cases st) (auto simp: stripState_def charOf_def Let_def split: option.splits)

lemma foldl_scanTile_stripState:
  "foldl (scanTile d) st (map stripState xs) = foldl (scanTile d) st xs"
  by (induction xs arbitrary: st) (simp_all add: scanTile_stripState)

lemma scanColumn_stripState:
  "scanColumn c (map (map stripState) ts) st = scanColumn c ts st"
  by (induction ts arbitrary: st) (auto simp: at_def scanTile_stripState simp del: scanTile.simps)

lemma scanColumns_stripState:
  "scanColumns (map (map stripState) ts) cs ws = scanColumns ts cs ws"
  by (induction cs arbitrary: ws) (simp_all add: scanColumn_stripState split: sum.splits)

lemma foundWords_stripState: "foundWords (map (map stripState) ts) = foundWords ts"
proof -
  have "map scanRow (map (map stripState) ts) = map scanRow ts"
    by (simp add: scanRow_def foldl_scanTile_stripState)
  then have 1: "getWordsFromTilesLTR (map (map stripState) ts) = getWordsFromTilesLTR ts"
    by (simp only: getWordsFromTilesLTR_def)
  have 2: "getWordsFromTilesTTB (map (map stripState) ts) = getWordsFromTilesTTB ts"
    by (cases ts) (simp_all add: getWordsFromTilesTTB_def at_def scanColumns_stripState [of "_ # _", simplified])
  show ?thesis by (simp only: foundWords_def 1 2)
qed

lemma initTile_stripState: "initTile (stripState t) = initTile t"
  by (simp add: initTile_def stripState_def)

lemma validateBoard_sameGrid_eq:
  assumes sg: "sameGrid (tiles b) (tiles b')" and cu: "cursor b' = cursor b"
  shows "validateBoard dictionary b' = validateBoard dictionary b"
proof -
  from sg have eq: "map (map stripState) (tiles b) = map (map stripState) (tiles b')"
    by (simp add: sameGrid_stripState)
  have f: "foundWords (tiles b') = foundWords (tiles b)"
    using foundWords_stripState [of "tiles b"] foundWords_stripState [of "tiles b'"] eq by simp
  have "map (map initTile) (map (map stripState) (tiles b')) = map (map initTile) (map (map stripState) (tiles b))"
    using eq by simp
  then have i: "map (map initTile) (tiles b') = map (map initTile) (tiles b)"
    by (simp add: comp_def initTile_stripState)
  have l: "length (tiles b') = length (tiles b)" using sg by (rule sameGrid_length)
  show ?thesis unfolding validateBoard_def Let_def f i l cu by (rule refl)
qed

lemma in_concat_nth:
  "t \<in> set (concat ts) \<longleftrightarrow> (\<exists>r c. r < length ts \<and> c < length (ts ! r) \<and> t = ts ! r ! c)"
proof
  assume "t \<in> set (concat ts)"
  then obtain rw where "rw \<in> set ts" "t \<in> set rw" by auto
  then obtain r c where "r < length ts" "rw = ts ! r" "c < length rw" "t = rw ! c"
    by (metis in_set_conv_nth)
  then show "\<exists>r c. r < length ts \<and> c < length (ts ! r) \<and> t = ts ! r ! c" by blast
next
  assume "\<exists>r c. r < length ts \<and> c < length (ts ! r) \<and> t = ts ! r ! c"
  then obtain r c where "r < length ts" "c < length (ts ! r)" "t = ts ! r ! c" by blast
  then have "ts ! r \<in> set ts" "t \<in> set (ts ! r)" by simp_all
  then show "t \<in> set (concat ts)" by auto
qed

lemma wellFormed_covers:
  assumes wf: "wellFormed ts" and f: "foundWords ts = Inr found" and w: "w \<in> set found"
  shows "covers (length ts) w r c \<longleftrightarrow> spans w r c"
    and "spans w r c \<Longrightarrow> r < length ts \<and> c < length (ts ! r) \<and> occupied (ts ! r ! c)"
proof -
  from found_words_wellFormed [OF wf] f w
  have sp: "\<And>r c. spans w r c \<Longrightarrow> r < length ts \<and> c < length (hd ts) \<and> occupied (ts ! r ! c)"
    by auto
  then show "covers (length ts) w r c \<longleftrightarrow> spans w r c" by (auto simp: covers_spans)
  assume "spans w r c"
  from sp [OF this] wf show "r < length ts \<and> c < length (ts ! r) \<and> occupied (ts ! r ! c)"
    by (simp add: wellFormed_iff)
qed

text \<open>
  Claim C1.  On a grid that satisfies the grid invariant \<^verbatim>\<open>validateBoard\<close> returns, and
  in the board it returns every tile spanned by a candidate word that is not in the
  dictionary has the state \<open>INVALID\<close>.  The marking pass, run to its end before the
  demotion pass starts, leaves every tile spanned by a dictionary word \<open>VALID\<close>; so a
  tile where a dictionary word crosses a word that is not in the dictionary is \<open>VALID\<close>
  after the marking pass and \<open>INVALID\<close> in the result.
\<close>

theorem invalid_word_tiles_end_invalid:
  assumes "wellFormed (tiles b)"
  shows "\<exists>found marked b' ok.
      foundWords (tiles b) = Inr found \<and>
      markWords markValid (length (tiles b)) (map (map initTile) (tiles b))
        (filter (\<lambda>w. word w \<in> dictionary) found) = Inr marked \<and>
      validateBoard dictionary b = Inr (b', ok) \<and>
      (\<forall>w\<in>set found. word w \<in> dictionary \<longrightarrow> (\<forall>r c. spans w r c \<longrightarrow> state (marked ! r ! c) = VALID)) \<and>
      (\<forall>w\<in>set found. word w \<notin> dictionary \<longrightarrow> (\<forall>r c. spans w r c \<longrightarrow> state (tiles b' ! r ! c) = INVALID))"
proof -
  let ?ts = "tiles b"
  let ?init = "map (map initTile) ?ts"
  from validateBoard_total [OF assms] obtain b' ok where v: "validateBoard dictionary b = Inr (b', ok)"
    by blast
  then obtain found marked where f: "foundWords ?ts = Inr found"
    and m: "markWords markValid (length ?ts) ?init (filter (\<lambda>w. word w \<in> dictionary) found) = Inr marked"
    unfolding validateBoard_Inr by blast
  have a: "state (marked ! r ! c) = VALID"
    if w: "w \<in> set found" "word w \<in> dictionary" and sp: "spans w r c" for w r c
  proof -
    from wellFormed_covers(2) [OF assms f w(1) sp] have rc: "r < length ?init" "c < length (?init ! r)"
      by simp_all
    from wellFormed_covers(1) [OF assms f w(1)] sp have "covers (length ?ts) w r c" by simp
    with w have "\<exists>w\<in>set (filter (\<lambda>w. word w \<in> dictionary) found). covers (length ?ts) w r c" by auto
    with markWords_state [OF idem_markValid m rc] show ?thesis by (simp add: markValid_def)
  qed
  have b: "state (tiles b' ! r ! c) = INVALID"
    if w: "w \<in> set found" "word w \<notin> dictionary" and sp: "spans w r c" for w r c
  proof -
    from wellFormed_covers(2) [OF assms f w(1) sp]
    have rc: "r < length ?ts" "c < length (?ts ! r)" and o: "occupied (?ts ! r ! c)" by simp_all
    from wellFormed_covers(1) [OF assms f w(1)] sp have "covers (length ?ts) w r c" by simp
    with w have "\<exists>w\<in>set found. word w \<notin> dictionary \<and> covers (length ?ts) w r c" by auto
    with validateBoard_state [OF v f rc] o show ?thesis by simp
  qed
  from f m v a b show ?thesis by blast
qed

theorem invalid_word_tiles_end_invalid_witness:
  "wellFormed (tiles (mkBoard [''CAT'', ''O..'', ''T..''])) \<and>
   foundWords (tiles (mkBoard [''CAT'', ''O..'', ''T..'']))
     = Inr [\<lparr>word = ''cat'', word_row = 0, word_col = 0, direction = LeftToRight\<rparr>,
            \<lparr>word = ''cot'', word_row = 0, word_col = 0, direction = TopToBottom\<rparr>] \<and>
   (\<exists>b' ok. validateBoard {''cat''} (mkBoard [''CAT'', ''O..'', ''T..'']) = Inr (b', ok) \<and>
      state (tiles b' ! 0 ! 0) = INVALID \<and> state (tiles b' ! 2 ! 0) = INVALID)"
proof -
  let ?b = "mkBoard [''CAT'', ''O..'', ''T..'']"
  let ?cot = "\<lparr>word = ''cot'', word_row = 0, word_col = 0, direction = TopToBottom\<rparr>"
  have h: "wellFormed (tiles ?b)" by code_simp
  have f: "foundWords (tiles ?b)
     = Inr [\<lparr>word = ''cat'', word_row = 0, word_col = 0, direction = LeftToRight\<rparr>, ?cot]"
    by code_simp
  from invalid_word_tiles_end_invalid [OF h, of "{''cat''}"] obtain found b' ok where
    1: "foundWords (tiles ?b) = Inr found"
    and 2: "validateBoard {''cat''} ?b = Inr (b', ok)"
    and 3: "\<forall>w\<in>set found. word w \<notin> {''cat''} \<longrightarrow> (\<forall>r c. spans w r c \<longrightarrow> state (tiles b' ! r ! c) = INVALID)"
    by blast
  from 1 f have "found = [\<lparr>word = ''cat'', word_row = 0, word_col = 0, direction = LeftToRight\<rparr>, ?cot]"
    by simp
  then have "?cot \<in> set found" by simp
  moreover have "word ?cot \<notin> {''cat''}" by simp
  moreover have "spans ?cot 0 0" "spans ?cot 2 0" by (simp_all add: spans_def)
  ultimately have "state (tiles b' ! 0 ! 0) = INVALID" "state (tiles b' ! 2 ! 0) = INVALID"
    using 3 by blast+
  with h f 2 show ?thesis by blast
qed

text \<open>
  Claim C4.  Whenever \<^verbatim>\<open>validateBoard\<close> returns, the boolean it returns is true exactly
  when every word of the row-wise candidates followed by the column-wise candidates is
  in the dictionary; the tile states play no part in it.  On a grid that satisfies the
  grid invariant it does return.
\<close>

theorem allValid_iff_every_candidate_in_dictionary:
  "(\<forall>b' ok. validateBoard dictionary b = Inr (b', ok) \<longrightarrow>
      (\<exists>ttb. getWordsFromTilesTTB (tiles b) = Inr ttb \<and>
         (ok \<longleftrightarrow> (\<forall>w\<in>set (getWordsFromTilesLTR (tiles b) @ ttb). word w \<in> dictionary)))) \<and>
   (wellFormed (tiles b) \<longrightarrow> (\<exists>b' ok. validateBoard dictionary b = Inr (b', ok)))"
proof (intro conjI allI impI)
  fix b' ok assume "validateBoard dictionary b = Inr (b', ok)"
  then obtain found where f: "foundWords (tiles b) = Inr found"
    and ok: "ok = list_all (\<lambda>w. word w \<in> dictionary) found"
    unfolding validateBoard_Inr by blast
  from f obtain ttb where t: "getWordsFromTilesTTB (tiles b) = Inr ttb"
    and "found = getWordsFromTilesLTR (tiles b) @ ttb"
    by (auto simp: foundWords_def split: sum.splits)
  with ok show "\<exists>ttb. getWordsFromTilesTTB (tiles b) = Inr ttb \<and>
         (ok \<longleftrightarrow> (\<forall>w\<in>set (getWordsFromTilesLTR (tiles b) @ ttb). word w \<in> dictionary))"
    by (simp add: list_all_iff)
next
  assume "wellFormed (tiles b)"
  then show "\<exists>b' ok. validateBoard dictionary b = Inr (b', ok)" by (rule validateBoard_total)
qed

theorem allValid_iff_every_candidate_in_dictionary_witness:
  "wellFormed (tiles (mkBoard [''CAT'', ''O..'', ''T..''])) \<and>
   getWordsFromTilesLTR (tiles (mkBoard [''CAT'', ''O..'', ''T..'']))
     = [\<lparr>word = ''cat'', word_row = 0, word_col = 0, direction = LeftToRight\<rparr>] \<and>
   getWordsFromTilesTTB (tiles (mkBoard [''CAT'', ''O..'', ''T..'']))
     = Inr [\<lparr>word = ''cot'', word_row = 0, word_col = 0, direction = TopToBottom\<rparr>] \<and>
   (\<exists>b'. validateBoard {''cat''} (mkBoard [''CAT'', ''O..'', ''T..'']) = Inr (b', False)) \<and>
   (\<exists>b'. validateBoard {''cat'', ''cot''} (mkBoard [''CAT'', ''O..'', ''T..'']) = Inr (b', True))"
proof -
  let ?b = "mkBoard [''CAT'', ''O..'', ''T..'']"
  have h: "wellFormed (tiles ?b)" by code_simp
  have l: "getWordsFromTilesLTR (tiles ?b)
     = [\<lparr>word = ''cat'', word_row = 0, word_col = 0, direction = LeftToRight\<rparr>]" by code_simp
  have t: "getWordsFromTilesTTB (tiles ?b)
     = Inr [\<lparr>word = ''cot'', word_row = 0, word_col = 0, direction = TopToBottom\<rparr>]" by code_simp
  have "\<exists>b'. validateBoard d ?b = Inr (b', ''cat'' \<in> d \<and> ''cot'' \<in> d)" for d
  proof -
    from allValid_iff_every_candidate_in_dictionary [of d ?b] h
    obtain b' ok where v: "validateBoard d ?b = Inr (b', ok)" by blast
    with allValid_iff_every_candidate_in_dictionary [of d ?b] l t
    have "ok \<longleftrightarrow> ''cat'' \<in> d \<and> ''cot'' \<in> d" by auto
    with v show ?thesis by blast
  qed
  from this [of "{''cat''}"] this [of "{''cat'', ''cot''}"] h l t show ?thesis by simp
qed

text \<open>
  Claim C6.  \<^verbatim>\<open>validateBoard\<close> is idempotent: run again on the board it returned, with
  the same dictionary, it returns that same board, state for state, and the same
  boolean.  On a grid that satisfies the grid invariant it does return.
\<close>

theorem validateBoard_idempotent:
  "(\<forall>g' ok. validateBoard dictionary g = Inr (g', ok) \<longrightarrow> validateBoard dictionary g' = Inr (g', ok)) \<and>
   (wellFormed (tiles g) \<longrightarrow> (\<exists>g' ok. validateBoard dictionary g = Inr (g', ok)))"
proof (intro conjI allI impI)
  fix g' ok assume v: "validateBoard dictionary g = Inr (g', ok)"
  from validateBoard_sameGrid_eq [OF validateBoard_sameGrid [OF v], of dictionary] v
  show "validateBoard dictionary g' = Inr (g', ok)" by simp
next
  assume "wellFormed (tiles g)"
  then show "\<exists>g' ok. validateBoard dictionary g = Inr (g', ok)" by (rule validateBoard_total)
qed

theorem validateBoard_idempotent_witness:
  "wellFormed (tiles (mkBoard [''CAT'', ''O..'', ''T..''])) \<and>
   (\<exists>g' ok. validateBoard {''cat''} (mkBoard [''CAT'', ''O..'', ''T..'']) = Inr (g', ok) \<and>
      validateBoard {''cat''} g' = Inr (g', ok) \<and>
      map (map state) (tiles g') = [[INVALID, VALID, VALID], [INVALID, IDLE, IDLE], [INVALID, IDLE, IDLE]])"
proof -
  let ?b = "mkBoard [''CAT'', ''O..'', ''T..'']"
  have h: "wellFormed (tiles ?b)" by code_simp
  have e: "map_sum id (\<lambda>(g, ok). map (map state) (tiles g)) (validateBoard {''cat''} ?b)
      = Inr [[INVALID, VALID, VALID], [INVALID, IDLE, IDLE], [INVALID, IDLE, IDLE]]"
    by code_simp
  from validateBoard_idempotent [of "{''cat''}" ?b] h
  obtain g' ok where v: "validateBoard {''cat''} ?b = Inr (g', ok)" by blast
  with validateBoard_idempotent [of "{''cat''}" ?b]
  have v2: "validateBoard {''cat''} g' = Inr (g', ok)" by blast
  from e v have m: "map (map state) (tiles g') = [[INVALID, VALID, VALID], [INVALID, IDLE, IDLE], [INVALID, IDLE, IDLE]]"
    by simp
  show ?thesis
    by (rule conjI [OF h], rule exI [of _ g'], rule exI [of _ ok]) (simp only: v v2 m simp_thms)
qed

text \<open>
  Claim C9.  On a grid that satisfies the grid invariant and in which no two
  neighbouring tiles of a row or of a column are both occupied, there is no candidate
  word, \<^verbatim>\<open>validateBoard\<close> returns \<open>True\<close>, and in the board it returns every tile with a
  letter is \<open>INVALID\<close> and every other tile \<open>IDLE\<close>: a true result does not mean that
  any tile is \<open>VALID\<close>.
\<close>

theorem no_runs_no_valid_tile:
  assumes "wellFormed (tiles b)"
    and "list_all noPairs (tiles b)"
    and "list_all (\<lambda>c. noPairs (column (tiles b) c)) [0..<length (hd (tiles b))]"
  shows "foundWords (tiles b) = Inr [] \<and>
         (\<exists>b'. validateBoard dictionary b = Inr (b', True) \<and>
            tiles b' = map (map initTile) (tiles b) \<and>
            (\<forall>t\<in>set (concat (tiles b')). state t = (if occupied t then INVALID else IDLE)))"
proof -
  have f: "foundWords (tiles b) = Inr []" by (rule no_runs_no_words [OF assms])
  then have v: "validateBoard dictionary b
      = Inr (\<lparr>cursor = cursor b, tiles = map (map initTile) (tiles b)\<rparr>, True)"
    by (simp add: validateBoard_def)
  have "\<forall>t\<in>set (concat (map (map initTile) (tiles b))). state t = (if occupied t then INVALID else IDLE)"
    by (auto simp: initTile_def occupied_def)
  with f v show ?thesis by simp
qed

theorem no_runs_no_valid_tile_witness:
  "wellFormed (tiles (mkBoard [''A..'', ''...'', ''..B''])) \<and>
   list_all noPairs (tiles (mkBoard [''A..'', ''...'', ''..B''])) \<and>
   list_all (\<lambda>c. noPairs (column (tiles (mkBoard [''A..'', ''...'', ''..B''])) c))
     [0..<length (hd (tiles (mkBoard [''A..'', ''...'', ''..B''])))] \<and>
   foundWords (tiles (mkBoard [''A..'', ''...'', ''..B''])) = Inr [] \<and>
   (\<exists>b'. validateBoard {''a''} (mkBoard [''A..'', ''...'', ''..B'']) = Inr (b', True) \<and>
      map (map state) (tiles b') = [[INVALID, IDLE, IDLE], [IDLE, IDLE, IDLE], [IDLE, IDLE, INVALID]])"
proof -
  let ?b = "mkBoard [''A..'', ''...'', ''..B'']"
  have h1: "wellFormed (tiles ?b)" by code_simp
  have h2: "list_all noPairs (tiles ?b)" by code_simp
  have h3: "list_all (\<lambda>c. noPairs (column (tiles ?b) c)) [0..<length (hd (tiles ?b))]" by code_simp
  have e: "map (map state) (map (map initTile) (tiles ?b))
      = [[INVALID, IDLE, IDLE], [IDLE, IDLE, IDLE], [IDLE, IDLE, INVALID]]" by code_simp
  from no_runs_no_valid_tile [OF h1 h2 h3, of "{''a''}"] obtain b' where
    f: "foundWords (tiles ?b) = Inr []" and v: "validateBoard {''a''} ?b = Inr (b', True)"
    and t: "tiles b' = map (map initTile) (tiles ?b)" by blast
  from t e have m: "map (map state) (tiles b') = [[INVALID, IDLE, IDLE], [IDLE, IDLE, IDLE], [IDLE, IDLE, INVALID]]"
    by simp
  show ?thesis
    by (intro conjI h1 h2 h3 f, rule exI [of _ b']) (simp only: v m simp_thms)
qed

lemma concat_map_filter:
  "concat (map (\<lambda>rw. map f (filter P rw)) ts) = map f (filter P (concat ts))"
  by (induction ts) simp_all

lemma sameGrid_tile_ids: "sameGrid ts ts' \<Longrightarrow> map tile_id (concat ts') = map tile_id (concat ts)"
proof -
  assume sg: "sameGrid ts ts'"
  have "map (map tile_id) ts' = map (map tile_id) ts"
  proof (rule nth_equalityI)
    show "length (map (map tile_id) ts') = length (map (map tile_id) ts)"
      using sg by (simp add: sameGrid_length)
    fix r assume "r < length (map (map tile_id) ts')"
    then have r: "r < length ts" using sg by (simp add: sameGrid_length)
    have "map tile_id (ts' ! r) = map tile_id (ts ! r)"
      using sameGrid_row_length [OF sg r] sameGrid_nth [OF sg r]
      by (auto simp: sameTile_def intro!: nth_equalityI)
    with r sg show "map (map tile_id) ts' ! r = map (map tile_id) ts ! r"
      by (simp add: sameGrid_length)
  qed
  then show ?thesis by (simp add: map_concat)
qed

lemma validateBoard_no_mixed:
  assumes v: "validateBoard dictionary b = Inr (b', ok)" and t: "t \<in> set (concat (tiles b'))"
  shows "state t \<noteq> MIXED"
proof -
  from v obtain found where f: "foundWords (tiles b) = Inr found" unfolding validateBoard_Inr by blast
  note sg = validateBoard_sameGrid(1) [OF v]
  from t obtain r c where rc: "r < length (tiles b')" "c < length (tiles b' ! r)" and teq: "t = tiles b' ! r ! c"
    unfolding in_concat_nth by blast
  from rc sg have rc': "r < length (tiles b)" "c < length (tiles b ! r)"
    by (simp_all add: sameGrid_length sameGrid_row_length)
  from validateBoard_state [OF v f rc'] show ?thesis unfolding teq by (simp split: if_splits)
qed

text \<open>
  Claim C10.  No tile of a board returned by \<^verbatim>\<open>validateBoard\<close> has the state \<open>MIXED\<close>.
  On a grid that satisfies the grid invariant and whose tile ids are pairwise distinct,
  the tiles of the returned board are \<open>IDLE\<close>, \<open>VALID\<close> or \<open>INVALID\<close>, the \<open>IDLE\<close> ones
  being exactly those without a letter, and \<^verbatim>\<open>countValidLettersOnBoard\<close> of the returned
  board is the number of its \<open>VALID\<close> tiles.
\<close>

theorem validateBoard_never_mixed:
  "(\<forall>b' ok. validateBoard dictionary b = Inr (b', ok) \<longrightarrow>
      (\<forall>t\<in>set (concat (tiles b')). state t \<noteq> MIXED)) \<and>
   (wellFormed (tiles b) \<and> distinct (map tile_id (concat (tiles b))) \<longrightarrow>
      (\<exists>b' ok. validateBoard dictionary b = Inr (b', ok) \<and>
         (\<forall>t\<in>set (concat (tiles b')).
            (state t = IDLE \<longleftrightarrow> letter t = None) \<and> state t \<in> {IDLE, VALID, INVALID}) \<and>
         countValidLettersOnBoard b' = length (filter (\<lambda>t. state t = VALID) (concat (tiles b')))))"
proof (intro conjI allI impI)
  fix b' ok assume "validateBoard dictionary b = Inr (b', ok)"
  then show "\<forall>t\<in>set (concat (tiles b')). state t \<noteq> MIXED"
    using validateBoard_no_mixed by blast
next
  assume a: "wellFormed (tiles b) \<and> distinct (map tile_id (concat (tiles b)))"
  then have wf: "wellFormed (tiles b)" and di: "distinct (map tile_id (concat (tiles b)))" by simp_all
  from validateBoard_total [OF wf] obtain b' ok where v: "validateBoard dictionary b = Inr (b', ok)"
    by blast
  then obtain found where f: "foundWords (tiles b) = Inr found" unfolding validateBoard_Inr by blast
  note sg = validateBoard_sameGrid(1) [OF v]
  have st: "(state t = IDLE \<longleftrightarrow> letter t = None) \<and> state t \<in> {IDLE, VALID, INVALID}"
    if t: "t \<in> set (concat (tiles b'))" for t
  proof -
    from t obtain r c where rc: "r < length (tiles b')" "c < length (tiles b' ! r)" and teq: "t = tiles b' ! r ! c"
      unfolding in_concat_nth by blast
    from rc sg have rc': "r < length (tiles b)" "c < length (tiles b ! r)"
      by (simp_all add: sameGrid_length sameGrid_row_length)
    from sameGrid_nth [OF sg rc'] have le: "letter t = letter (tiles b ! r ! c)"
      by (simp add: teq sameTile_def)
    have cov: "occupied (tiles b ! r ! c)" if "w \<in> set found" "covers (length (tiles b)) w r c" for w
      using wellFormed_covers [OF wf f that(1)] that(2) by blast
    show ?thesis
    proof (cases "occupied (tiles b ! r ! c)")
      case True
      with validateBoard_state [OF v f rc'] le show ?thesis
        unfolding teq by (simp add: occupied_def)
    next
      case False
      with cov have "\<not> (\<exists>w\<in>set found. word w \<notin> dictionary \<and> covers (length (tiles b)) w r c)"
        "\<not> (\<exists>w\<in>set found. word w \<in> dictionary \<and> covers (length (tiles b)) w r c)"
        by blast+
      with validateBoard_state [OF v f rc'] le False show ?thesis
        unfolding teq by (simp add: occupied_def)
    qed
  qed
  have nm: "filter (\<lambda>t. state t = VALID \<or> state t = MIXED) (concat (tiles b'))
          = filter (\<lambda>t. state t = VALID) (concat (tiles b'))"
    by (rule filter_cong [OF refl]) (use validateBoard_no_mixed [OF v] in blast)
  have "distinct (map tile_id (concat (tiles b')))"
    using di sameGrid_tile_ids [OF sg] by simp
  then have "distinct (map tile_id (filter (\<lambda>t. state t = VALID) (concat (tiles b'))))"
    by (rule distinct_map_filter)
  from distinct_card [OF this]
  have "card (set (map tile_id (filter (\<lambda>t. state t = VALID) (concat (tiles b')))))
      = length (filter (\<lambda>t. state t = VALID) (concat (tiles b')))"
    by (simp only: length_map)
  then have cnt: "countValidLettersOnBoard b' = length (filter (\<lambda>t. state t = VALID) (concat (tiles b')))"
    unfolding countValidLettersOnBoard_def countValidTiles_def concat_map_filter nm .
  from v st cnt show "\<exists>b' ok. validateBoard dictionary b = Inr (b', ok) \<and>
         (\<forall>t\<in>set (concat (tiles b')).
            (state t = IDLE \<longleftrightarrow> letter t = None) \<and> state t \<in> {IDLE, VALID, INVALID}) \<and>
         countValidLettersOnBoard b' = length (filter (\<lambda>t. state t = VALID) (concat (tiles b')))"
    by blast
qed

theorem validateBoard_never_mixed_witness:
  "wellFormed (tiles (mkBoard [''CAT'', ''O..'', ''T..''])) \<and>
   distinct (map tile_id (concat (tiles (mkBoard [''CAT'', ''O..'', ''T..''])))) \<and>
   (\<exists>b' ok. validateBoard {''cat''} (mkBoard [''CAT'', ''O..'', ''T..'']) = Inr (b', ok) \<and>
      map (map state) (tiles b') = [[INVALID, VALID, VALID], [INVALID, IDLE, IDLE], [INVALID, IDLE, IDLE]] \<and>
      countValidLettersOnBoard b' = 2)"
proof -
  let ?b = "mkBoard [''CAT'', ''O..'', ''T..'']"
  have h1: "wellFormed (tiles ?b)" by code_simp
  have h2: "distinct (map tile_id (concat (tiles ?b)))" by code_simp
  have e: "map_sum id (\<lambda>(g, ok). map (map state) (tiles g)) (validateBoard {''cat''} ?b)
      = Inr [[INVALID, VALID, VALID], [INVALID, IDLE, IDLE], [INVALID, IDLE, IDLE]]"
    by code_simp
  from validateBoard_never_mixed [of "{''cat''}" ?b] h1 h2
  obtain b' ok where v: "validateBoard {''cat''} ?b = Inr (b', ok)"
    and c: "countValidLettersOnBoard b' = length (filter (\<lambda>t. state t = VALID) (concat (tiles b')))"
    by blast
  from e v have m: "map (map state) (tiles b') = [[INVALID, VALID, VALID], [INVALID, IDLE, IDLE], [INVALID, IDLE, IDLE]]"
    by simp
  have "length (filter (\<lambda>t. state t = VALID) (concat (tiles b')))
      = length (filter (\<lambda>s. s = VALID) (concat (map (map state) (tiles b'))))"
    by (simp add: map_concat [symmetric] filter_map comp_def del: map_concat)
  also have "\<dots> = 2" unfolding m by simp
  finally have n: "countValidLettersOnBoard b' = 2" using c by simp
  show ?thesis
    by (intro conjI h1 h2, rule exI [of _ b'], rule exI [of _ ok]) (simp only: v m n simp_thms)
qed

section \<open>The connectivity check\<close>

lemma wellFormed_tile:
  assumes "wellFormed ts" "r < length ts" "c < length (hd ts)"
  shows "c < length (ts ! r)" "pos (ts ! r ! c) = (r, c)" "at2 ts r c = Some (ts ! r ! c)"
    "ts ! r ! c \<in> set (concat ts)"
proof -
  from assms show c: "c < length (ts ! r)" by (simp add: wellFormed_iff)
  from assms show "pos (ts ! r ! c) = (r, c)" by (simp add: wellFormed_iff pos_def)
  from assms c show "at2 ts r c = Some (ts ! r ! c)" by (simp add: at2_Some)
  then show "ts ! r ! c \<in> set (concat ts)" by (rule at2_in_grid)
qed

lemma wellFormed_in_grid:
  assumes wf: "wellFormed ts" and t: "t \<in> set (concat ts)"
  shows "row t < length ts" "col t < length (hd ts)" "ts ! row t ! col t = t"
proof -
  from t obtain r c where rc: "r < length ts" "c < length (ts ! r)" and teq: "t = ts ! r ! c"
    unfolding in_concat_nth by blast
  from wf rc have c: "c < length (hd ts)" by (simp add: wellFormed_iff)
  from wellFormed_tile(2) [OF wf rc(1) c] have "row t = r" "col t = c" by (simp_all add: teq pos_def)
  with rc c teq show "row t < length ts" "col t < length (hd ts)" "ts ! row t ! col t = t" by simp_all
qed

lemma occupiedAt_tile:
  assumes wf: "wellFormed ts" and o: "occupiedAt ts p"
  shows "tileAt ts p \<in> set (concat ts)" "occupied (tileAt ts p)" "pos (tileAt ts p) = p"
    "fst p < length ts" "snd p < length (hd ts)"
proof -
  from o have r: "fst p < length ts" and c0: "snd p < length (ts ! fst p)"
    and oc: "occupied (ts ! fst p ! snd p)" by (simp_all add: occupiedAt_def)
  from wf r c0 have c: "snd p < length (hd ts)" by (simp add: wellFormed_iff)
  from wellFormed_tile [OF wf r c] oc
  show "tileAt ts p \<in> set (concat ts)" "occupied (tileAt ts p)" "pos (tileAt ts p) = p"
    by (simp_all add: tileAt_def)
  from r c show "fst p < length ts" "snd p < length (hd ts)" .
qed

lemma occupied_tile_at:
  assumes wf: "wellFormed ts" and t: "t \<in> set (concat ts)" and o: "occupied t"
  shows "occupiedAt ts (pos t)" "tileAt ts (pos t) = t"
proof -
  note g = wellFormed_in_grid [OF wf t]
  from wellFormed_tile(1) [OF wf g(1,2)] g o
  show "occupiedAt ts (pos t)" by (simp add: occupiedAt_def pos_def)
  from g show "tileAt ts (pos t) = t" by (simp add: tileAt_def pos_def)
qed

lemma dfsPost_refl: "dfsPost ts src v v"
  by (simp add: dfsPost_def)

lemma dfsPost_trans:
  assumes "dfsPost ts src v0 v1" "dfsPost ts src v1 v2"
  shows "dfsPost ts src v0 v2"
proof -
  from assms have sub: "v0 \<subseteq> v2" by (auto simp: dfsPost_def)
  have "u \<in> set (concat ts) \<and> occupied u \<and> (src, pos u) \<in> (links ts)\<^sup>* \<and>
         (\<forall>q. (pos u, q) \<in> links ts \<longrightarrow> tileAt ts q \<in> v2)" if u: "u \<in> v2 - v0" for u
  proof (cases "u \<in> v1")
    case True
    with u have "u \<in> v1 - v0" by simp
    with assms(1) have "u \<in> set (concat ts) \<and> occupied u \<and> (src, pos u) \<in> (links ts)\<^sup>* \<and>
         (\<forall>q. (pos u, q) \<in> links ts \<longrightarrow> tileAt ts q \<in> v1)" unfolding dfsPost_def by blast
    moreover from assms(2) have "v1 \<subseteq> v2" by (simp add: dfsPost_def)
    ultimately show ?thesis by blast
  next
    case False
    with u have "u \<in> v2 - v1" by simp
    with assms(2) show ?thesis unfolding dfsPost_def by blast
  qed
  with sub show ?thesis unfolding dfsPost_def by blast
qed

lemma dfsPost_link:
  assumes "dfsPost ts n v v'" "(src, n) \<in> links ts"
  shows "dfsPost ts src v v'"
  using assms unfolding dfsPost_def
  by (meson converse_rtrancl_into_rtrancl)

lemma visitIf_step:
  assumes wf: "wellFormed ts"
    and src: "occupiedAt ts src"
    and g: "g \<Longrightarrow> r < length ts \<and> c < length (hd ts) \<and> adjacent src (r, c)"
    and ih: "\<And>t. g \<Longrightarrow> at2 ts r c = Some t \<Longrightarrow> letter t \<noteq> None \<Longrightarrow> t \<notin> v \<Longrightarrow>
               \<exists>v'. dfs (Some t) v = Inr v' \<and> t \<in> v' \<and> dfsPost ts (pos t) v v'"
  shows "\<exists>v'. visitIf g ts r c dfs v = Inr v' \<and> dfsPost ts src v v' \<and>
            (g \<and> occupiedAt ts (r, c) \<longrightarrow> tileAt ts (r, c) \<in> v')"
proof (cases g)
  case False
  then show ?thesis by (simp add: visitIf_def dfsPost_refl)
next
  case True
  from g [OF True] have r: "r < length ts" and c: "c < length (hd ts)" and adj: "adjacent src (r, c)"
    by simp_all
  let ?t = "ts ! r ! c"
  note t = wellFormed_tile [OF wf r c]
  show ?thesis
  proof (cases "letter ?t \<noteq> None \<and> ?t \<notin> v")
    case False
    then have "visitIf g ts r c dfs v = Inr v" by (auto simp: visitIf_def t(3) True)
    moreover from False t(1) r have "occupiedAt ts (r, c) \<longrightarrow> tileAt ts (r, c) \<in> v"
      by (auto simp: occupiedAt_def occupied_def tileAt_def)
    ultimately show ?thesis by (simp add: dfsPost_refl)
  next
    case yes: True
    then have vi: "visitIf g ts r c dfs v = dfs (Some ?t) v" by (simp add: visitIf_def t(3) True)
    from ih [OF True t(3)] yes obtain v' where
      d: "dfs (Some ?t) v = Inr v'" and tv: "?t \<in> v'" and post: "dfsPost ts (pos ?t) v v'" by blast
    from yes t(1) r have "occupiedAt ts (r, c)" by (simp add: occupiedAt_def occupied_def)
    with src adj have "(src, (r, c)) \<in> links ts" by (simp add: links_def)
    with post t(2) have "dfsPost ts src v v'" by (simp add: dfsPost_link)
    with vi d tv show ?thesis by (simp add: tileAt_def)
  qed
qed

lemma adjacent_cases:
  assumes "adjacent (r, c) q"
  shows "(0 < r \<and> q = (r - 1, c)) \<or> (0 < c \<and> q = (r, c - 1)) \<or> q = (r + 1, c) \<or> q = (r, c + 1)"
  using assms by (cases q) (auto simp: adjacent_def)

lemma markTilesDFS_correct:
  "wellFormed ts \<Longrightarrow> mr = length ts \<Longrightarrow> mc = length (hd ts) \<Longrightarrow>
   topt = Some tile \<Longrightarrow> tile \<in> set (concat ts) \<Longrightarrow> occupied tile \<Longrightarrow>
   \<exists>v'. markTilesDFS ts mr mc topt v = Inr v' \<and> tile \<in> v' \<and> dfsPost ts (pos tile) v v'"
proof (induction ts mr mc topt v arbitrary: tile rule: markTilesDFS.induct)
  case (1 ts maxRow maxCol visitedTiles)
  then show ?case by simp
next
  case (2 ts maxRow maxCol tile0 v)
  from "2.prems" have wf: "wellFormed ts" and mr: "maxRow = length ts" and mc: "maxCol = length (hd ts)"
    and teq: "tile0 = tile" and tg: "tile \<in> set (concat ts)" and to: "occupied tile" by simp_all
  note grid = wellFormed_in_grid [OF wf tg]
  note src = occupied_tile_at [OF wf tg to]
  let ?p = "pos tile"
  let ?dfs = "markTilesDFS ts maxRow maxCol"
  show ?case
  proof (cases "tile \<in> v")
    case True
    then show ?thesis by (simp add: teq dfsPost_refl markTilesDFS.simps)
  next
    case False
    then have nv: "tile0 \<notin> v" by (simp add: teq)
    let ?v0 = "insert tile v"
    have sub: "\<exists>v'. ?dfs (Some t) w = Inr v' \<and> t \<in> v' \<and> dfsPost ts (pos t) w v'"
      if "at2 ts r c = Some t" "letter t \<noteq> None"
        and "wellFormed ts \<Longrightarrow> maxRow = length ts \<Longrightarrow> maxCol = length (hd ts) \<Longrightarrow>
             Some t = Some t \<Longrightarrow> t \<in> set (concat ts) \<Longrightarrow> occupied t \<Longrightarrow>
             \<exists>v'. ?dfs (Some t) w = Inr v' \<and> t \<in> v' \<and> dfsPost ts (pos t) w v'"
      for r c t w
      using that(3) [OF wf mr mc refl at2_in_grid [OF that(1)]] that(2) by (simp add: occupied_def)
    \<comment> \<open>up\<close>
    have g1: "0 < row tile \<Longrightarrow> row tile - 1 < length ts \<and> col tile < length (hd ts) \<and> adjacent ?p (row tile - 1, col tile)"
      using grid by (auto simp: adjacent_def pos_def)
    have "\<exists>v1. visitIf (0 < row tile) ts (row tile - 1) (col tile) ?dfs ?v0 = Inr v1 \<and> dfsPost ts ?p ?v0 v1 \<and>
            (0 < row tile \<and> occupiedAt ts (row tile - 1, col tile) \<longrightarrow> tileAt ts (row tile - 1, col tile) \<in> v1)"
    proof (rule visitIf_step [OF wf src(1) g1])
      fix t assume a: "0 < row tile" "at2 ts (row tile - 1) (col tile) = Some t" "letter t \<noteq> None" "t \<notin> ?v0"
      show "\<exists>v'. ?dfs (Some t) ?v0 = Inr v' \<and> t \<in> v' \<and> dfsPost ts (pos t) ?v0 v'"
        by (rule sub [OF a(2,3)], rule "2.IH"(1) [unfolded teq, OF False a(1,2,3,4)])
    qed
    then obtain v1 where s1: "visitIf (0 < row tile) ts (row tile - 1) (col tile) ?dfs ?v0 = Inr v1"
      and p1: "dfsPost ts ?p ?v0 v1"
      and n1: "0 < row tile \<and> occupiedAt ts (row tile - 1, col tile) \<longrightarrow> tileAt ts (row tile - 1, col tile) \<in> v1"
      by blast
    \<comment> \<open>left\<close>
    have g2: "0 < col tile \<Longrightarrow> row tile < length ts \<and> col tile - 1 < length (hd ts) \<and> adjacent ?p (row tile, col tile - 1)"
      using grid by (auto simp: adjacent_def pos_def)
    have "\<exists>v2. visitIf (0 < col tile) ts (row tile) (col tile - 1) ?dfs v1 = Inr v2 \<and> dfsPost ts ?p v1 v2 \<and>
            (0 < col tile \<and> occupiedAt ts (row tile, col tile - 1) \<longrightarrow> tileAt ts (row tile, col tile - 1) \<in> v2)"
    proof (rule visitIf_step [OF wf src(1) g2])
      fix t assume a: "0 < col tile" "at2 ts (row tile) (col tile - 1) = Some t" "letter t \<noteq> None" "t \<notin> v1"
      show "\<exists>v'. ?dfs (Some t) v1 = Inr v' \<and> t \<in> v' \<and> dfsPost ts (pos t) v1 v'"
        by (rule sub [OF a(2,3)], rule "2.IH"(2) [unfolded teq, OF False s1 a(1,2,3,4)])
    qed
    then obtain v2 where s2: "visitIf (0 < col tile) ts (row tile) (col tile - 1) ?dfs v1 = Inr v2"
      and p2: "dfsPost ts ?p v1 v2"
      and n2: "0 < col tile \<and> occupiedAt ts (row tile, col tile - 1) \<longrightarrow> tileAt ts (row tile, col tile - 1) \<in> v2"
      by blast
    \<comment> \<open>down\<close>
    have g3: "int (row tile) < int maxRow - 1 \<Longrightarrow>
        row tile + 1 < length ts \<and> col tile < length (hd ts) \<and> adjacent ?p (row tile + 1, col tile)"
      using grid mr by (auto simp: adjacent_def pos_def)
    have "\<exists>v3. visitIf (int (row tile) < int maxRow - 1) ts (row tile + 1) (col tile) ?dfs v2 = Inr v3 \<and>
            dfsPost ts ?p v2 v3 \<and>
            (int (row tile) < int maxRow - 1 \<and> occupiedAt ts (row tile + 1, col tile)
               \<longrightarrow> tileAt ts (row tile + 1, col tile) \<in> v3)"
    proof (rule visitIf_step [OF wf src(1) g3])
      fix t assume a: "int (row tile) < int maxRow - 1" "at2 ts (row tile + 1) (col tile) = Some t"
        "letter t \<noteq> None" "t \<notin> v2"
      show "\<exists>v'. ?dfs (Some t) v2 = Inr v' \<and> t \<in> v' \<and> dfsPost ts (pos t) v2 v'"
        by (rule sub [OF a(2,3)], rule "2.IH"(3) [unfolded teq, OF False s1 s2 a(1,2,3,4)])
    qed
    then obtain v3 where s3: "visitIf (int (row tile) < int maxRow - 1) ts (row tile + 1) (col tile) ?dfs v2 = Inr v3"
      and p3: "dfsPost ts ?p v2 v3"
      and n3: "int (row tile) < int maxRow - 1 \<and> occupiedAt ts (row tile + 1, col tile)
               \<longrightarrow> tileAt ts (row tile + 1, col tile) \<in> v3"
      by blast
    \<comment> \<open>right\<close>
    have g4: "int (col tile) < int maxCol - 1 \<Longrightarrow>
        row tile < length ts \<and> col tile + 1 < length (hd ts) \<and> adjacent ?p (row tile, col tile + 1)"
      using grid mc by (auto simp: adjacent_def pos_def)
    have "\<exists>v4. visitIf (int (col tile) < int maxCol - 1) ts (row tile) (col tile + 1) ?dfs v3 = Inr v4 \<and>
            dfsPost ts ?p v3 v4 \<and>
            (int (col tile) < int maxCol - 1 \<and> occupiedAt ts (row tile, col tile + 1)
               \<longrightarrow> tileAt ts (row tile, col tile + 1) \<in> v4)"
    proof (rule visitIf_step [OF wf src(1) g4])
      fix t assume a: "int (col tile) < int maxCol - 1" "at2 ts (row tile) (col tile + 1) = Some t"
        "letter t \<noteq> None" "t \<notin> v3"
      show "\<exists>v'. ?dfs (Some t) v3 = Inr v' \<and> t \<in> v' \<and> dfsPost ts (pos t) v3 v'"
        by (rule sub [OF a(2,3)], rule "2.IH"(4) [unfolded teq, OF False s1 s2 s3 a(1,2,3,4)])
    qed
    then obtain v4 where s4: "visitIf (int (col tile) < int maxCol - 1) ts (row tile) (col tile + 1) ?dfs v3 = Inr v4"
      and p4: "dfsPost ts ?p v3 v4"
      and n4: "int (col tile) < int maxCol - 1 \<and> occupiedAt ts (row tile, col tile + 1)
               \<longrightarrow> tileAt ts (row tile, col tile + 1) \<in> v4"
      by blast
    have res: "markTilesDFS ts maxRow maxCol (Some tile) v = Inr v4"
      using False s1 s2 s3 s4 by (simp add: markTilesDFS.simps)
    have p04: "dfsPost ts ?p ?v0 v4"
      by (rule dfsPost_trans [OF p1 dfsPost_trans [OF p2 dfsPost_trans [OF p3 p4]]])
    then have m04: "?v0 \<subseteq> v4" by (simp add: dfsPost_def)
    from p2 p3 p4 have m: "v1 \<subseteq> v4" "v2 \<subseteq> v4" "v3 \<subseteq> v4" by (auto simp: dfsPost_def)
    have nb: "tileAt ts q \<in> v4" if l: "(?p, q) \<in> links ts" for q
    proof -
      from l have oq: "occupiedAt ts q" and adj: "adjacent (row tile, col tile) q"
        by (simp_all add: links_def pos_def)
      note q = occupiedAt_tile(4,5) [OF wf oq]
      from adjacent_cases [OF adj] consider
        "0 < row tile" "q = (row tile - 1, col tile)" | "0 < col tile" "q = (row tile, col tile - 1)"
        | "q = (row tile + 1, col tile)" | "q = (row tile, col tile + 1)" by argo
      then show ?thesis
      proof cases
        case 1
        with n1 oq m show ?thesis by auto
      next
        case 2
        with n2 oq m show ?thesis by auto
      next
        case 3
        with q mr have "int (row tile) < int maxRow - 1" by simp
        with n3 oq 3 m show ?thesis by auto
      next
        case 4
        with q mc have "int (col tile) < int maxCol - 1" by simp
        with n4 oq 4 show ?thesis by auto
      qed
    qed
    have "dfsPost ts ?p v v4"
      unfolding dfsPost_def
    proof (rule conjI)
      from m04 show "v \<subseteq> v4" by blast
      show "\<forall>u\<in>v4 - v. u \<in> set (concat ts) \<and> occupied u \<and> (?p, pos u) \<in> (links ts)\<^sup>* \<and>
         (\<forall>q. (pos u, q) \<in> links ts \<longrightarrow> tileAt ts q \<in> v4)"
      proof
        fix u assume u: "u \<in> v4 - v"
        show "u \<in> set (concat ts) \<and> occupied u \<and> (?p, pos u) \<in> (links ts)\<^sup>* \<and>
         (\<forall>q. (pos u, q) \<in> links ts \<longrightarrow> tileAt ts q \<in> v4)"
        proof (cases "u = tile")
          case True
          with tg to nb show ?thesis by simp
        next
          case False
          with u have "u \<in> v4 - ?v0" by simp
          with p04 show ?thesis unfolding dfsPost_def by blast
        qed
      qed
    qed
    with res m04 show ?thesis by (auto simp: teq)
  qed
qed

lemma find_append:
  "find P (xs @ ys) = (case find P xs of None \<Rightarrow> find P ys | Some x \<Rightarrow> Some x)"
  by (induction xs) simp_all

lemma find_concat_first:
  "find P (concat xss) = Some x \<Longrightarrow>
   \<exists>r c. r < length xss \<and> c < length (xss ! r) \<and> x = xss ! r ! c \<and> P x \<and>
     (\<forall>r' c'. r' < length xss \<and> c' < length (xss ! r') \<and> P (xss ! r' ! c') \<longrightarrow>
        r < r' \<or> (r = r' \<and> c \<le> c'))"
proof (induction xss)
  case Nil
  then show ?case by simp
next
  case (Cons xs xss)
  show ?case
  proof (cases "find P xs")
    case None
    then have no: "\<And>c'. c' < length xs \<Longrightarrow> \<not> P (xs ! c')" by (auto simp: find_None_iff)
    from None Cons.prems have "find P (concat xss) = Some x" by (simp add: find_append)
    from Cons.IH [OF this] obtain r c where rc: "r < length xss" "c < length (xss ! r)" "x = xss ! r ! c" "P x"
      and mn: "\<forall>r' c'. r' < length xss \<and> c' < length (xss ! r') \<and> P (xss ! r' ! c') \<longrightarrow>
        r < r' \<or> (r = r' \<and> c \<le> c')" by blast
    have "\<forall>r' c'. r' < length (xs # xss) \<and> c' < length ((xs # xss) ! r') \<and> P ((xs # xss) ! r' ! c') \<longrightarrow>
        Suc r < r' \<or> (Suc r = r' \<and> c \<le> c')"
    proof (intro allI impI)
      fix r' c' assume a: "r' < length (xs # xss) \<and> c' < length ((xs # xss) ! r') \<and> P ((xs # xss) ! r' ! c')"
      show "Suc r < r' \<or> (Suc r = r' \<and> c \<le> c')"
      proof (cases r')
        case 0
        with a no show ?thesis by auto
      next
        case (Suc r'')
        with a mn have "r < r'' \<or> (r = r'' \<and> c \<le> c')" by simp
        with Suc show ?thesis by auto
      qed
    qed
    with rc show ?thesis by (intro exI [of _ "Suc r"] exI [of _ c]) simp
  next
    case (Some y)
    with Cons.prems have xy: "y = x" by (simp add: find_append)
    from Some [unfolded find_Some_iff] xy obtain c where c: "c < length xs" "P (xs ! c)" "x = xs ! c"
      and mn: "\<forall>j<c. \<not> P (xs ! j)" by blast
    have "\<forall>r' c'. r' < length (xs # xss) \<and> c' < length ((xs # xss) ! r') \<and> P ((xs # xss) ! r' ! c') \<longrightarrow>
        0 < r' \<or> (0 = r' \<and> c \<le> c')"
    proof (intro allI impI)
      fix r' c' assume a: "r' < length (xs # xss) \<and> c' < length ((xs # xss) ! r') \<and> P ((xs # xss) ! r' ! c')"
      show "0 < r' \<or> (0 = r' \<and> c \<le> c')"
      proof (cases r')
        case 0
        with a mn have "\<not> c' < c" by auto
        with 0 show ?thesis by simp
      next
        case (Suc r'')
        then show ?thesis by simp
      qed
    qed
    with c show ?thesis by (intro exI [of _ 0] exI [of _ c]) simp
  qed
qed

lemma findAnyTile_None:
  "findAnyTile ts = None \<longleftrightarrow> (\<forall>q. \<not> occupiedAt ts q)"
proof -
  have "findAnyTile ts = None \<longleftrightarrow> \<not> (\<exists>t. t \<in> set (concat ts) \<and> letter t \<noteq> None)"
    by (simp only: findAnyTile_def find_None_iff)
  also have "\<dots> \<longleftrightarrow> (\<forall>q. \<not> occupiedAt ts q)"
    unfolding in_concat_nth occupiedAt_def occupied_def by auto
  finally show ?thesis .
qed

lemma findAnyTile_Some:
  assumes f: "findAnyTile ts = Some t"
  shows "\<exists>p. occupiedAt ts p \<and> t = tileAt ts p \<and> (\<forall>q. occupiedAt ts q \<longrightarrow> rowMajorLe p q)"
proof -
  from find_concat_first [OF f [unfolded findAnyTile_def]]
  obtain r c where rc: "r < length ts" "c < length (ts ! r)" "t = ts ! r ! c" "letter t \<noteq> None"
    and mn: "\<forall>r' c'. r' < length ts \<and> c' < length (ts ! r') \<and> letter (ts ! r' ! c') \<noteq> None \<longrightarrow>
        r < r' \<or> (r = r' \<and> c \<le> c')" by blast
  have "occupiedAt ts (r, c)" using rc by (simp add: occupiedAt_def occupied_def)
  moreover have "t = tileAt ts (r, c)" using rc by (simp add: tileAt_def)
  moreover have "\<forall>q. occupiedAt ts q \<longrightarrow> rowMajorLe (r, c) q"
    using mn by (auto simp: occupiedAt_def occupied_def rowMajorLe_def)
  ultimately show ?thesis by blast
qed

lemma finite_occupiedAt: "finite {q. occupiedAt ts q}"
proof (rule finite_subset)
  let ?m = "Max (length ` set ts)"
  show "{q. occupiedAt ts q} \<subseteq> {..<length ts} \<times> {..?m}"
  proof
    fix q assume "q \<in> {q. occupiedAt ts q}"
    then have a: "fst q < length ts" "snd q < length (ts ! fst q)" by (simp_all add: occupiedAt_def)
    then have "length (ts ! fst q) \<in> length ` set ts" by simp
    then have "length (ts ! fst q) \<le> ?m" by (intro Max_ge) auto
    with a(2) have "snd q \<le> ?m" by linarith
    with a(1) show "q \<in> {..<length ts} \<times> {..?m}"
      by (simp only: mem_Times_iff lessThan_iff atMost_iff simp_thms)
  qed
  show "finite ({..<length ts} \<times> {..?m})" by simp
qed

lemma tileAt_inj:
  assumes wf: "wellFormed ts"
  shows "inj_on (tileAt ts) {q. occupiedAt ts q}"
proof (rule inj_onI)
  fix p q assume "p \<in> {q. occupiedAt ts q}" "q \<in> {q. occupiedAt ts q}" "tileAt ts p = tileAt ts q"
  then have "occupiedAt ts p" "occupiedAt ts q" and e: "tileAt ts p = tileAt ts q" by simp_all
  from occupiedAt_tile(3) [OF wf this(1)] occupiedAt_tile(3) [OF wf this(2)]
  show "p = q" unfolding e by (rule trans [OF sym])
qed

lemma occupied_tiles_set:
  assumes wf: "wellFormed ts"
  shows "set (filter occupied (concat ts)) = tileAt ts ` {q. occupiedAt ts q}"
proof (intro set_eqI iffI)
  fix t assume "t \<in> set (filter occupied (concat ts))"
  then have "t \<in> set (concat ts)" "occupied t" by simp_all
  from occupied_tile_at [OF wf this] show "t \<in> tileAt ts ` {q. occupiedAt ts q}"
    by (intro image_eqI [where x = "pos t"]) simp_all
next
  fix t assume "t \<in> tileAt ts ` {q. occupiedAt ts q}"
  then obtain q where "occupiedAt ts q" "t = tileAt ts q" by blast
  with occupiedAt_tile(1,2) [OF wf this(1)] show "t \<in> set (filter occupied (concat ts))" by simp
qed

lemma countFilledTiles_card:
  assumes wf: "wellFormed ts"
    and di: "distinct (filter (\<lambda>l. l \<noteq> None) (concat (map (map letter) ts)))"
  shows "countFilledTiles ts = card {q. occupiedAt ts q}"
proof -
  have o: "occupied = (\<lambda>t. letter t \<noteq> None)" by (rule ext) (simp add: occupied_def)
  have eq: "filter (\<lambda>l. l \<noteq> None) (concat (map (map letter) ts)) = map letter (filter occupied (concat ts))"
    unfolding o by (induction ts) (simp_all add: filter_map comp_def)
  from di have d: "distinct (map letter (filter occupied (concat ts)))" by (simp only: eq)
  then have d2: "distinct (filter occupied (concat ts))" by (simp only: distinct_map)
  have "countFilledTiles ts = length (map letter (filter occupied (concat ts)))"
    unfolding countFilledTiles_def eq using distinct_card [OF d] .
  also have "\<dots> = card (set (filter occupied (concat ts)))"
    using distinct_card [OF d2] by simp
  also have "\<dots> = card (tileAt ts ` {q. occupiedAt ts q})"
    by (simp only: occupied_tiles_set [OF wf])
  also have "\<dots> = card {q. occupiedAt ts q}"
    by (rule card_image [OF tileAt_inj [OF wf]])
  finally show ?thesis .
qed

lemma links_occupied: "(p, q) \<in> (links ts)\<^sup>* \<Longrightarrow> occupiedAt ts p \<Longrightarrow> occupiedAt ts q"
  by (induction rule: rtrancl_induct) (auto simp: links_def)

lemma links_sym: "sym (links ts)"
  by (auto simp: sym_def links_def adjacent_def)

lemma dfs_visits_region:
  assumes wf: "wellFormed ts" and p0: "occupiedAt ts p0"
  shows "\<exists>v. markTilesDFS ts (length ts) (length (hd ts)) (Some (tileAt ts p0)) {} = Inr v \<and>
           v = tileAt ts ` {q. (p0, q) \<in> (links ts)\<^sup>*}"
proof -
  note t0 = occupiedAt_tile [OF wf p0]
  from markTilesDFS_correct [OF wf refl refl refl t0(1) t0(2), of "{}"] t0(3)
  obtain v where res: "markTilesDFS ts (length ts) (length (hd ts)) (Some (tileAt ts p0)) {} = Inr v"
    and s: "tileAt ts p0 \<in> v" and post: "dfsPost ts p0 {} v" by auto
  from post have all: "\<And>u. u \<in> v \<Longrightarrow> u \<in> set (concat ts) \<and> occupied u \<and> (p0, pos u) \<in> (links ts)\<^sup>* \<and>
         (\<forall>q. (pos u, q) \<in> links ts \<longrightarrow> tileAt ts q \<in> v)" unfolding dfsPost_def by simp
  have "v = tileAt ts ` {q. (p0, q) \<in> (links ts)\<^sup>*}"
  proof (intro set_eqI iffI)
    fix u assume u: "u \<in> v"
    from all [OF u] have "u \<in> set (concat ts)" "occupied u" "(p0, pos u) \<in> (links ts)\<^sup>*" by simp_all
    with occupied_tile_at(2) [OF wf this(1,2)] show "u \<in> tileAt ts ` {q. (p0, q) \<in> (links ts)\<^sup>*}"
      by (intro image_eqI [where x = "pos u"]) simp_all
  next
    fix u assume "u \<in> tileAt ts ` {q. (p0, q) \<in> (links ts)\<^sup>*}"
    then obtain q where q: "(p0, q) \<in> (links ts)\<^sup>*" and u: "u = tileAt ts q" by blast
    from q have "tileAt ts q \<in> v"
    proof (induction rule: rtrancl_induct)
      case base
      show ?case by (rule s)
    next
      case (step y z)
      from links_occupied [OF step(1) p0] have "occupiedAt ts y" .
      from occupiedAt_tile(3) [OF wf this] have py: "pos (tileAt ts y) = y" .
      from all [OF step(3)] have "\<forall>q. (pos (tileAt ts y), q) \<in> links ts \<longrightarrow> tileAt ts q \<in> v" by blast
      with step(2) show ?case unfolding py by blast
    qed
    with u show "u \<in> v" by simp
  qed
  with res show ?thesis by blast
qed

lemma first_occupied:
  "(\<exists>q. occupiedAt ts q) \<Longrightarrow>
   \<exists>p0. findAnyTile ts = Some (tileAt ts p0) \<and> occupiedAt ts p0 \<and> (\<forall>q. occupiedAt ts q \<longrightarrow> rowMajorLe p0 q)"
proof -
  assume "\<exists>q. occupiedAt ts q"
  then have "findAnyTile ts \<noteq> None" by (simp add: findAnyTile_None)
  then obtain t where t: "findAnyTile ts = Some t" by blast
  from findAnyTile_Some [OF t] t show ?thesis by blast
qed

lemma rowMajorLe_antisym: "rowMajorLe p q \<Longrightarrow> rowMajorLe q p \<Longrightarrow> p = q"
  by (cases p; cases q) (auto simp: rowMajorLe_def)

lemma region_card:
  assumes wf: "wellFormed ts" and p0: "occupiedAt ts p0"
  shows "card (tileAt ts ` {q. (p0, q) \<in> (links ts)\<^sup>*}) = card {q. occupiedAt ts q}
         \<longleftrightarrow> (\<forall>q. occupiedAt ts q \<longrightarrow> (p0, q) \<in> (links ts)\<^sup>*)"
proof -
  let ?R = "{q. (p0, q) \<in> (links ts)\<^sup>*}"
  let ?O = "{q. occupiedAt ts q}"
  have sub: "?R \<subseteq> ?O" using links_occupied [OF _ p0] by blast
  have "inj_on (tileAt ts) ?R" by (rule inj_on_subset [OF tileAt_inj [OF wf] sub])
  then have c: "card (tileAt ts ` ?R) = card ?R" by (rule card_image)
  have "card ?R = card ?O \<longleftrightarrow> ?R = ?O"
    using card_subset_eq [OF finite_occupiedAt sub] by auto
  also have "\<dots> \<longleftrightarrow> (\<forall>q. occupiedAt ts q \<longrightarrow> (p0, q) \<in> (links ts)\<^sup>*)"
    using sub by blast
  finally show ?thesis unfolding c .
qed

text \<open>
  Claim C2.  On a board that satisfies the grid invariant and on which no letter object
  sits on two tiles, \<^verbatim>\<open>validateWordIsland\<close> returns normally, and it returns true exactly
  when there is a first occupied position in row-major order from which every occupied
  position can be reached by steps between neighbouring occupied positions.  That is
  the case exactly when there is an occupied tile and any two occupied positions are
  connected: the occupied tiles form one region.  So the result is false on a board
  without letters and on a board whose occupied tiles fall into two or more groups.
\<close>

theorem validateWordIsland_one_region:
  assumes wf: "wellFormed (tiles b)"
    and di: "distinct (filter (\<lambda>l. l \<noteq> None) (concat (map (map letter) (tiles b))))"
  shows "validateWordIsland b =
           Inr (\<exists>p0. occupiedAt (tiles b) p0 \<and>
                  (\<forall>q. occupiedAt (tiles b) q \<longrightarrow> rowMajorLe p0 q \<and> (p0, q) \<in> (links (tiles b))\<^sup>*)) \<and>
         ((\<exists>p0. occupiedAt (tiles b) p0 \<and>
                  (\<forall>q. occupiedAt (tiles b) q \<longrightarrow> rowMajorLe p0 q \<and> (p0, q) \<in> (links (tiles b))\<^sup>*))
          \<longleftrightarrow> (\<exists>p. occupiedAt (tiles b) p) \<and>
              (\<forall>p q. occupiedAt (tiles b) p \<and> occupiedAt (tiles b) q \<longrightarrow> (p, q) \<in> (links (tiles b))\<^sup>*))"
proof
  let ?ts = "tiles b"
  let ?A = "\<exists>p0. occupiedAt ?ts p0 \<and> (\<forall>q. occupiedAt ?ts q \<longrightarrow> rowMajorLe p0 q \<and> (p0, q) \<in> (links ?ts)\<^sup>*)"
  from wf have "?ts \<noteq> []" by (simp add: wellFormed_iff)
  then have at0: "at ?ts 0 = Some (hd ?ts)" by (cases ?ts) (simp_all add: at_def)
  show "validateWordIsland b = Inr ?A"
  proof (cases "\<exists>q. occupiedAt ?ts q")
    case False
    then have "findAnyTile ?ts = None" by (simp add: findAnyTile_None)
    with False show ?thesis by (auto simp: validateWordIsland_def at0)
  next
    case True
    from first_occupied [OF True] obtain p0 where f: "findAnyTile ?ts = Some (tileAt ?ts p0)"
      and p0: "occupiedAt ?ts p0" and least: "\<forall>q. occupiedAt ?ts q \<longrightarrow> rowMajorLe p0 q" by blast
    from dfs_visits_region [OF wf p0]
    have d: "markTilesDFS ?ts (length ?ts) (length (hd ?ts)) (Some (tileAt ?ts p0)) {}
           = Inr (tileAt ?ts ` {q. (p0, q) \<in> (links ?ts)\<^sup>*})" by blast
    have res: "validateWordIsland b
        = Inr (card (tileAt ?ts ` {q. (p0, q) \<in> (links ?ts)\<^sup>*}) = card {q. occupiedAt ?ts q})"
      by (simp add: validateWordIsland_def at0 f d countFilledTiles_card [OF wf di] Let_def)
    have "?A \<longleftrightarrow> (\<forall>q. occupiedAt ?ts q \<longrightarrow> (p0, q) \<in> (links ?ts)\<^sup>*)"
    proof
      assume ?A
      then obtain p1 where p1: "occupiedAt ?ts p1"
        and all: "\<forall>q. occupiedAt ?ts q \<longrightarrow> rowMajorLe p1 q \<and> (p1, q) \<in> (links ?ts)\<^sup>*" by blast
      from all p0 least p1 have "p1 = p0" by (blast intro: rowMajorLe_antisym)
      with all show "\<forall>q. occupiedAt ?ts q \<longrightarrow> (p0, q) \<in> (links ?ts)\<^sup>*" by blast
    next
      assume "\<forall>q. occupiedAt ?ts q \<longrightarrow> (p0, q) \<in> (links ?ts)\<^sup>*"
      with p0 least show ?A by blast
    qed
    with region_card [OF wf p0] show ?thesis unfolding res by simp
  qed
  show "?A \<longleftrightarrow> (\<exists>p. occupiedAt ?ts p) \<and>
              (\<forall>p q. occupiedAt ?ts p \<and> occupiedAt ?ts q \<longrightarrow> (p, q) \<in> (links ?ts)\<^sup>*)"
  proof
    assume ?A
    then obtain p0 where p0: "occupiedAt ?ts p0"
      and all: "\<forall>q. occupiedAt ?ts q \<longrightarrow> (p0, q) \<in> (links ?ts)\<^sup>*" by blast
    have "(p, q) \<in> (links ?ts)\<^sup>*" if "occupiedAt ?ts p" "occupiedAt ?ts q" for p q
    proof -
      from all that have 1: "(p0, p) \<in> (links ?ts)\<^sup>*" and 2: "(p0, q) \<in> (links ?ts)\<^sup>*" by blast+
      from sym_rtrancl [OF links_sym] 1 have "(p, p0) \<in> (links ?ts)\<^sup>*" by (rule symD)
      from this 2 show ?thesis by (rule rtrancl_trans)
    qed
    with p0 show "(\<exists>p. occupiedAt ?ts p) \<and>
              (\<forall>p q. occupiedAt ?ts p \<and> occupiedAt ?ts q \<longrightarrow> (p, q) \<in> (links ?ts)\<^sup>*)" by blast
  next
    assume B: "(\<exists>p. occupiedAt ?ts p) \<and>
              (\<forall>p q. occupiedAt ?ts p \<and> occupiedAt ?ts q \<longrightarrow> (p, q) \<in> (links ?ts)\<^sup>*)"
    then have "\<exists>q. occupiedAt ?ts q" by blast
    from first_occupied [OF this] obtain p0 where
      p0: "occupiedAt ?ts p0" and least: "\<forall>q. occupiedAt ?ts q \<longrightarrow> rowMajorLe p0 q" by blast
    with B show ?A by blast
  qed
qed

theorem validateWordIsland_one_region_witness:
  "wellFormed (tiles (mkBoard [''CAT'', ''O..'', ''T..''])) \<and>
   distinct (filter (\<lambda>l. l \<noteq> None) (concat (map (map letter) (tiles (mkBoard [''CAT'', ''O..'', ''T..'']))))) \<and>
   validateWordIsland (mkBoard [''CAT'', ''O..'', ''T..'']) = Inr True \<and>
   ((0, 2), (2, 0)) \<in> (links (tiles (mkBoard [''CAT'', ''O..'', ''T..''])))\<^sup>* \<and>
   wellFormed (tiles (mkBoard [''CA.'', ''...'', ''..T''])) \<and>
   distinct (filter (\<lambda>l. l \<noteq> None) (concat (map (map letter) (tiles (mkBoard [''CA.'', ''...'', ''..T'']))))) \<and>
   validateWordIsland (mkBoard [''CA.'', ''...'', ''..T'']) = Inr False \<and>
   (\<exists>p q. occupiedAt (tiles (mkBoard [''CA.'', ''...'', ''..T''])) p \<and>
          occupiedAt (tiles (mkBoard [''CA.'', ''...'', ''..T''])) q \<and>
          (p, q) \<notin> (links (tiles (mkBoard [''CA.'', ''...'', ''..T''])))\<^sup>*) \<and>
   wellFormed (tiles (mkBoard [''...'', ''...'', ''...''])) \<and>
   validateWordIsland (mkBoard [''...'', ''...'', ''...'']) = Inr False"
proof -
  let ?b = "mkBoard [''CAT'', ''O..'', ''T..'']"
  let ?c = "mkBoard [''CA.'', ''...'', ''..T'']"
  let ?e = "mkBoard [''...'', ''...'', ''...'']"
  have h1: "wellFormed (tiles ?b)" by code_simp
  have h2: "distinct (filter (\<lambda>l. l \<noteq> None) (concat (map (map letter) (tiles ?b))))" by code_simp
  have e: "validateWordIsland ?b = Inr True" by code_simp
  have o: "occupiedAt (tiles ?b) (0, 2)" "occupiedAt (tiles ?b) (2, 0)" by code_simp+
  note t = validateWordIsland_one_region [OF h1 h2]
  from t [THEN conjunct1] e
  have "\<exists>p0. occupiedAt (tiles ?b) p0 \<and>
          (\<forall>q. occupiedAt (tiles ?b) q \<longrightarrow> rowMajorLe p0 q \<and> (p0, q) \<in> (links (tiles ?b))\<^sup>*)"
    by (simp only: sum.inject simp_thms)
  with t [THEN conjunct2]
  have "\<forall>p q. occupiedAt (tiles ?b) p \<and> occupiedAt (tiles ?b) q \<longrightarrow> (p, q) \<in> (links (tiles ?b))\<^sup>*"
    by blast
  with o have 1: "((0, 2), (2, 0)) \<in> (links (tiles ?b))\<^sup>*" by blast
  have k1: "wellFormed (tiles ?c)" by code_simp
  have k2: "distinct (filter (\<lambda>l. l \<noteq> None) (concat (map (map letter) (tiles ?c))))" by code_simp
  have e': "validateWordIsland ?c = Inr False" by code_simp
  have o': "occupiedAt (tiles ?c) (0, 0)" by code_simp
  note t' = validateWordIsland_one_region [OF k1 k2]
  from t' [THEN conjunct1] e'
  have "\<not> (\<exists>p0. occupiedAt (tiles ?c) p0 \<and>
          (\<forall>q. occupiedAt (tiles ?c) q \<longrightarrow> rowMajorLe p0 q \<and> (p0, q) \<in> (links (tiles ?c))\<^sup>*))"
    by (simp only: sum.inject simp_thms)
  with t' [THEN conjunct2] o'
  have 2: "\<exists>p q. occupiedAt (tiles ?c) p \<and> occupiedAt (tiles ?c) q \<and> (p, q) \<notin> (links (tiles ?c))\<^sup>*"
    by blast
  have m1: "wellFormed (tiles ?e)" by code_simp
  have m2: "validateWordIsland ?e = Inr False" by code_simp
  from h1 h2 e 1 k1 k2 e' 2 m1 m2 show ?thesis by (intro conjI)
qed

section \<open>The gate in the caller\<close>

text \<open>
  Claim C8.  When \<^verbatim>\<open>validateWordIsland\<close> returns false on the current board (as it does
  on a board without letters and on a board with separate groups of letters),
  \<^verbatim>\<open>requestFinish\<close> does nothing but log \<^verbatim>\<open>Invalid tiles\<close>: whatever the dictionary and
  whatever \<^verbatim>\<open>setBoard\<close> would do, neither the result of \<^verbatim>\<open>validateBoard\<close> nor \<^verbatim>\<open>setBoard\<close>
  enters the new state, and the board is the one before the call, so no tile state
  changes.
\<close>

theorem requestFinish_gated:
  assumes "validateWordIsland (board g) = Inr False"
  shows "requestFinish dictionary setBoard g = Inr (console_info ''Invalid tiles'' g) \<and>
         board (console_info ''Invalid tiles'' g) = board g \<and>
         console (console_info ''Invalid tiles'' g) = console g @ [''Invalid tiles'']"
  using assms by (simp add: requestFinish_def console_info_def)

theorem requestFinish_gated_witness:
  "validateWordIsland (board \<lparr>board = mkBoard [''CA.'', ''...'', ''..T''], console = []\<rparr>) = Inr False \<and>
   requestFinish {''ca''} (\<lambda>b g. g\<lparr>board := b\<rparr>) \<lparr>board = mkBoard [''CA.'', ''...'', ''..T''], console = []\<rparr>
     = Inr \<lparr>board = mkBoard [''CA.'', ''...'', ''..T''], console = [''Invalid tiles'']\<rparr> \<and>
   validateWordIsland (board \<lparr>board = mkBoard [''...'', ''...'', ''...''], console = []\<rparr>) = Inr False \<and>
   requestFinish {''ca''} (\<lambda>b g. g\<lparr>board := b\<rparr>) \<lparr>board = mkBoard [''...'', ''...'', ''...''], console = []\<rparr>
     = Inr \<lparr>board = mkBoard [''...'', ''...'', ''...''], console = [''Invalid tiles'']\<rparr>"
proof -
  let ?g = "\<lparr>board = mkBoard [''CA.'', ''...'', ''..T''], console = []\<rparr> :: unit game"
  let ?e = "\<lparr>board = mkBoard [''...'', ''...'', ''...''], console = []\<rparr> :: unit game"
  have h: "validateWordIsland (board ?g) = Inr False" by code_simp
  have k: "validateWordIsland (board ?e) = Inr False" by code_simp
  from requestFinish_gated [OF h, of "{''ca''}" "\<lambda>b g. g\<lparr>board := b\<rparr>"]
    requestFinish_gated [OF k, of "{''ca''}" "\<lambda>b g. g\<lparr>board := b\<rparr>"] h k
  show ?thesis by (simp add: console_info_def)
qed

section \<open>The input of the validation is left as it was\<close>

lemma writeState_store_frame:
  assumes "writeState_store f refs h r c = Inr h'"
  shows "fresh h' = fresh h" "\<And>a. a \<notin> set (concat refs) \<Longrightarrow> objs h' a = objs h a"
    "\<And>a. sameTile (objs h a) (objs h' a)"
proof -
  from assms obtain a0 where a0: "at2 refs r c = Some a0"
    and h': "h' = h\<lparr>objs := (objs h)(a0 := (objs h a0)\<lparr>state := f (state (objs h a0))\<rparr>)\<rparr>"
    by (auto simp: writeState_store_def split: option.splits)
  from h' show "fresh h' = fresh h" by simp
  from at2_in_grid [OF a0] h' show "\<And>a. a \<notin> set (concat refs) \<Longrightarrow> objs h' a = objs h a" by auto
  from h' show "\<And>a. sameTile (objs h a) (objs h' a)" by (simp add: sameTile_def)
qed

lemma frame_refl: "frame refs h h"
  by (simp add: frame_def sameTile_refl)

lemma frame_trans: "frame refs h h1 \<Longrightarrow> frame refs h1 h2 \<Longrightarrow> frame refs h h2"
  unfolding frame_def by (metis sameTile_trans)

lemma writeState_store_frame': "writeState_store f refs h r c = Inr h' \<Longrightarrow> frame refs h h'"
  using writeState_store_frame [of f refs h r c h'] by (simp add: frame_def)

lemma loopLTR_store_frame: "loopLTR_store f w refs h cs = Inr h' \<Longrightarrow> frame refs h h'"
proof (induction cs arbitrary: h)
  case Nil
  then show ?case by (simp add: frame_refl)
next
  case (Cons c cs)
  then obtain h1 where 1: "writeState_store f refs h (word_row w) (word_col w + c) = Inr h1"
    and 2: "loopLTR_store f w refs h1 cs = Inr h'" by (auto split: sum.splits)
  from writeState_store_frame' [OF 1] Cons.IH [OF 2] show ?case by (rule frame_trans)
qed

lemma loopTTB_store_frame: "loopTTB_store f gb w refs h rs = Inr h' \<Longrightarrow> frame refs h h'"
proof (induction rs arbitrary: h)
  case Nil
  then show ?case by (simp add: frame_refl)
next
  case (Cons r rs)
  show ?case
  proof (cases "int (word_row w + r) > int gb - 1")
    case True
    with Cons show ?thesis by simp
  next
    case False
    with Cons.prems obtain h1 where 1: "writeState_store f refs h (word_row w + r) (word_col w) = Inr h1"
      and 2: "loopTTB_store f gb w refs h1 rs = Inr h'" by (auto split: sum.splits)
    from writeState_store_frame' [OF 1] Cons.IH [OF 2] show ?thesis by (rule frame_trans)
  qed
qed

lemma markWord_store_frame: "markWord_store f gb refs h w = Inr h' \<Longrightarrow> frame refs h h'"
  by (auto simp: markWord_store_def split: WordDirection.splits
      dest: loopLTR_store_frame loopTTB_store_frame)

lemma markWords_store_frame: "markWords_store f gb refs h ws = Inr h' \<Longrightarrow> frame refs h h'"
proof (induction ws arbitrary: h)
  case Nil
  then show ?case by (simp add: frame_refl)
next
  case (Cons w ws)
  then obtain h1 where 1: "markWord_store f gb refs h w = Inr h1"
    and 2: "markWords_store f gb refs h1 ws = Inr h'" by (auto split: sum.splits)
  from markWord_store_frame [OF 1] Cons.IH [OF 2] show ?case by (rule frame_trans)
qed

lemma upt_Suc_length: "[a..<a + Suc n] = a # [Suc a..<Suc a + n]"
  by (subst upt_rec) simp

lemma copyRow_props:
  assumes "copyRow as h = (as', h')"
  shows "as' = [fresh h..<fresh h + length as]" "fresh h' = fresh h + length as"
    "\<forall>x<fresh h. objs h' x = objs h x"
    "list_all (\<lambda>a. a < fresh h) as \<Longrightarrow> map (objs h') as' = map (\<lambda>a. initTile (objs h a)) as"
proof -
  have "as' = [fresh h..<fresh h + length as] \<and> fresh h' = fresh h + length as \<and>
        (\<forall>x<fresh h. objs h' x = objs h x) \<and>
        (list_all (\<lambda>a. a < fresh h) as \<longrightarrow> map (objs h') as' = map (\<lambda>a. initTile (objs h a)) as)"
    using assms
  proof (induction as arbitrary: h as' h')
    case Nil
    then show ?case by simp
  next
    case (Cons a as)
    define h1 where "h1 = \<lparr>objs = (objs h)(fresh h := initTile (objs h a)), fresh = Suc (fresh h)\<rparr>"
    have f1: "fresh h1 = Suc (fresh h)" and o1: "objs h1 = (objs h)(fresh h := initTile (objs h a))"
      by (simp_all add: h1_def)
    obtain as1 h2 where c: "copyRow as h1 = (as1, h2)" by (cases "copyRow as h1")
    with Cons.prems have as': "as' = fresh h # as1" and h': "h' = h2"
      by (simp_all add: alloc_def h1_def)
    from Cons.IH [OF c] have 1: "as1 = [Suc (fresh h)..<Suc (fresh h) + length as]"
      and 2: "fresh h2 = Suc (fresh h) + length as"
      and 3: "\<forall>x<Suc (fresh h). objs h2 x = objs h1 x"
      and 4: "list_all (\<lambda>a. a < Suc (fresh h)) as \<longrightarrow> map (objs h2) as1 = map (\<lambda>a. initTile (objs h1 a)) as"
      unfolding f1 by blast+
    have a1: "as' = [fresh h..<fresh h + length (a # as)]"
      unfolding as' 1 length_Cons by (rule upt_Suc_length [symmetric])
    have a2: "fresh h' = fresh h + length (a # as)" using 2 h' by simp
    have a3: "\<forall>x<fresh h. objs h' x = objs h x" using 3 h' o1 by simp
    have a4: "map (objs h') as' = map (\<lambda>a. initTile (objs h a)) (a # as)"
      if al: "list_all (\<lambda>a. a < fresh h) (a # as)"
    proof -
      from al have "list_all (\<lambda>a. a < Suc (fresh h)) as" by (auto simp: list_all_iff)
      with 4 have "map (objs h2) as1 = map (\<lambda>a. initTile (objs h1 a)) as" by blast
      also have "\<dots> = map (\<lambda>a. initTile (objs h a)) as"
        using al by (intro map_cong refl) (auto simp: list_all_iff o1)
      finally have "map (objs h2) as1 = map (\<lambda>a. initTile (objs h a)) as" .
      moreover from 3 have "objs h2 (fresh h) = initTile (objs h a)" by (simp add: o1)
      ultimately show ?thesis by (simp add: as' h')
    qed
    from a1 a2 a3 a4 show ?case by blast
  qed
  then show "as' = [fresh h..<fresh h + length as]" "fresh h' = fresh h + length as"
    "\<forall>x<fresh h. objs h' x = objs h x"
    "list_all (\<lambda>a. a < fresh h) as \<Longrightarrow> map (objs h') as' = map (\<lambda>a. initTile (objs h a)) as"
    by blast+
qed

lemma copyGrid_props:
  assumes "copyGrid refs h = (refs', h')"
  shows "concat refs' = [fresh h..<fresh h + length (concat refs)]"
    "fresh h' = fresh h + length (concat refs)"
    "\<forall>x<fresh h. objs h' x = objs h x"
    "map length refs' = map length refs"
    "allocated h refs \<Longrightarrow> view h' refs' = map (map initTile) (view h refs)"
proof -
  have "concat refs' = [fresh h..<fresh h + length (concat refs)] \<and>
        fresh h' = fresh h + length (concat refs) \<and>
        (\<forall>x<fresh h. objs h' x = objs h x) \<and> map length refs' = map length refs \<and>
        (allocated h refs \<longrightarrow> view h' refs' = map (map initTile) (view h refs))"
    using assms
  proof (induction refs arbitrary: h refs' h')
    case Nil
    then show ?case by (simp add: view_def)
  next
    case (Cons rw rws)
    obtain rw1 h1 where r: "copyRow rw h = (rw1, h1)" by (cases "copyRow rw h")
    obtain rws1 h2 where g: "copyGrid rws h1 = (rws1, h2)" by (cases "copyGrid rws h1")
    from Cons.prems r g have refs': "refs' = rw1 # rws1" and h': "h' = h2" by simp_all
    note rp = copyRow_props [OF r]
    from Cons.IH [OF g] have 1: "concat rws1 = [fresh h1..<fresh h1 + length (concat rws)]"
      and 2: "fresh h2 = fresh h1 + length (concat rws)"
      and 3: "\<forall>x<fresh h1. objs h2 x = objs h1 x"
      and 5: "map length rws1 = map length rws"
      and 4: "allocated h1 rws \<longrightarrow> view h2 rws1 = map (map initTile) (view h1 rws)"
      by simp_all
    have "[fresh h..<fresh h + length rw + length (concat rws)]
        = [fresh h..<fresh h + length rw] @ [fresh h + length rw..<fresh h + length rw + length (concat rws)]"
      by (rule upt_add_eq_append) simp
    then have a1: "concat refs' = [fresh h..<fresh h + length (concat (rw # rws))]"
      unfolding refs' by (simp add: 1 rp(1,2) add.assoc)
    have a2: "fresh h' = fresh h + length (concat (rw # rws))" using 2 rp(2) h' by simp
    have a3: "\<forall>x<fresh h. objs h' x = objs h x" using 3 rp(2,3) h' by simp
    have a5: "map length refs' = map length (rw # rws)" using 5 rp(1) refs' by simp
    have a4: "view h' refs' = map (map initTile) (view h (rw # rws))" if al: "allocated h (rw # rws)"
    proof -
      from al have alr: "list_all (\<lambda>a. a < fresh h) rw" and alg: "allocated h rws"
        by (simp_all add: allocated_def)
      from alg rp(2) have "allocated h1 rws" by (fastforce simp: allocated_def list_all_iff)
      with 4 have "view h2 rws1 = map (map initTile) (view h1 rws)" by blast
      also have "view h1 rws = view h rws"
        unfolding view_def using alg rp(3)
        by (intro map_cong refl) (auto simp: allocated_def list_all_iff)
      finally have t: "view h2 rws1 = map (map initTile) (view h rws)" .
      have "map (objs h2) rw1 = map (objs h1) rw1"
        using 3 rp(1,2) by (intro map_cong refl) auto
      also have "\<dots> = map (\<lambda>a. initTile (objs h a)) rw" by (rule rp(4) [OF alr])
      finally have "map (objs h2) rw1 = map (\<lambda>a. initTile (objs h a)) rw" .
      with t show ?thesis by (simp add: view_def refs' h' comp_def)
    qed
    from a1 a2 a3 a4 a5 show ?case by blast
  qed
  then show "concat refs' = [fresh h..<fresh h + length (concat refs)]"
    "fresh h' = fresh h + length (concat refs)"
    "\<forall>x<fresh h. objs h' x = objs h x"
    "map length refs' = map length refs"
    "allocated h refs \<Longrightarrow> view h' refs' = map (map initTile) (view h refs)"
    by blast+
qed

lemma frame_sameGrid: "frame refs h h' \<Longrightarrow> sameGrid (view h rs) (view h' rs)"
  by (auto simp: frame_def sameGrid_def view_def list_all2_conv_all_nth)

lemma validateBoard_store_Inr:
  "validateBoard_store dictionary h b = Inr (h', b', ok) \<longleftrightarrow>
     (\<exists>found validated h0 h1.
        foundWords (view h (tile_refs b)) = Inr found \<and>
        copyGrid (tile_refs b) h = (validated, h0) \<and>
        markWords_store markValid (length (tile_refs b)) validated h0
          (filter (\<lambda>w. word w \<in> dictionary) found) = Inr h1 \<and>
        markWords_store demote (length (tile_refs b)) validated h1
          (filter (\<lambda>w. word w \<notin> dictionary) found) = Inr h' \<and>
        b' = \<lparr>cursor_ref = cursor_ref b, tile_refs = validated\<rparr> \<and>
        ok = list_all (\<lambda>w. word w \<in> dictionary) found)"
  by (auto simp: validateBoard_store_def Let_def split: sum.splits prod.splits)

lemma validateBoard_store_frame:
  assumes al: "allocated h (tile_refs b)"
    and v: "validateBoard_store dictionary h b = Inr (h', b', ok)"
  shows "\<forall>a<fresh h. objs h' a = objs h a"
    "view h' (tile_refs b) = view h (tile_refs b)"
    "cursor_ref b' = cursor_ref b"
    "sameGrid (view h (tile_refs b)) (view h' (tile_refs b'))"
    "\<forall>a\<in>set (concat (tile_refs b')). fresh h \<le> a"
proof -
  from v obtain found validated h0 h1 where
    cg: "copyGrid (tile_refs b) h = (validated, h0)"
    and m: "markWords_store markValid (length (tile_refs b)) validated h0
          (filter (\<lambda>w. word w \<in> dictionary) found) = Inr h1"
    and d: "markWords_store demote (length (tile_refs b)) validated h1
          (filter (\<lambda>w. word w \<notin> dictionary) found) = Inr h'"
    and b': "b' = \<lparr>cursor_ref = cursor_ref b, tile_refs = validated\<rparr>"
    unfolding validateBoard_store_Inr by blast
  note cp = copyGrid_props [OF cg]
  have fr: "frame validated h0 h'"
    by (rule frame_trans [OF markWords_store_frame [OF m] markWords_store_frame [OF d]])
  from cp(1) have new: "\<forall>a\<in>set (concat validated). fresh h \<le> a" by simp
  show old: "\<forall>a<fresh h. objs h' a = objs h a"
  proof (intro allI impI)
    fix a assume a: "a < fresh h"
    with new have "a \<notin> set (concat validated)" by (meson leD)
    with fr have "objs h' a = objs h0 a" by (simp add: frame_def)
    with cp(3) a show "objs h' a = objs h a" by simp
  qed
  show "view h' (tile_refs b) = view h (tile_refs b)"
    unfolding view_def using al old
    by (intro map_cong refl) (auto simp: allocated_def list_all_iff)
  show "cursor_ref b' = cursor_ref b" by (simp add: b')
  have "sameGrid (view h (tile_refs b)) (view h0 validated)"
    unfolding cp(5) [OF al] by (rule sameGrid_initTile)
  from sameGrid_trans [OF this frame_sameGrid [OF fr]]
  show "sameGrid (view h (tile_refs b)) (view h' (tile_refs b'))" by (simp add: b')
  from new show "\<forall>a\<in>set (concat (tile_refs b')). fresh h \<le> a" by (simp add: b')
qed

lemma distinct_concat_nth:
  "distinct (concat xss) \<Longrightarrow> r < length xss \<Longrightarrow> c < length (xss ! r) \<Longrightarrow>
   r' < length xss \<Longrightarrow> c' < length (xss ! r') \<Longrightarrow> xss ! r ! c = xss ! r' ! c' \<Longrightarrow> r = r' \<and> c = c'"
proof (induction xss arbitrary: r r')
  case Nil
  then show ?case by simp
next
  case (Cons xs xss)
  from Cons.prems(1) have dx: "distinct xs" and dr: "distinct (concat xss)"
    and disj: "set xs \<inter> set (concat xss) = {}" by simp_all
  have inrest: "xss ! k ! j \<in> set (concat xss)" if "k < length xss" "j < length (xss ! k)" for k j
    unfolding in_concat_nth using that by blast
  have cross: False if "i < length xs" "k < length xss" "j < length (xss ! k)" "xs ! i = xss ! k ! j" for i k j
  proof -
    from that(1) have "xs ! i \<in> set xs" by simp
    moreover from inrest [OF that(2,3)] that(4) have "xs ! i \<in> set (concat xss)" by simp
    ultimately show False using disj by blast
  qed
  show ?case
  proof (cases r)
    case 0
    note r0 = this
    show ?thesis
    proof (cases r')
      case 0
      from Cons.prems(3,5,6) have "c < length xs" "c' < length xs" "xs ! c = xs ! c'"
        unfolding r0 0 by simp_all
      with dx have "c = c'" by (simp add: nth_eq_iff_index_eq)
      with r0 0 show ?thesis by simp
    next
      case (Suc k)
      from Cons.prems(2-6) have "c < length xs" "k < length xss" "c' < length (xss ! k)" "xs ! c = xss ! k ! c'"
        unfolding r0 Suc by simp_all
      from cross [OF this] show ?thesis ..
    qed
  next
    case (Suc j)
    note rj = this
    show ?thesis
    proof (cases r')
      case 0
      from Cons.prems(2-6) have "c' < length xs" "j < length xss" "c < length (xss ! j)" "xs ! c' = xss ! j ! c"
        unfolding rj 0 by simp_all
      from cross [OF this] show ?thesis ..
    next
      case (Suc k)
      from Cons.prems(2-6) have "j < length xss" "c < length (xss ! j)" "k < length xss" "c' < length (xss ! k)"
        "xss ! j ! c = xss ! k ! c'"
        unfolding rj Suc by simp_all
      from Cons.IH [OF dr this] rj Suc show ?thesis by simp
    qed
  qed
qed

lemma view_update:
  assumes d: "distinct (concat refs)" and r: "r < length refs" and c: "c < length (refs ! r)"
  shows "view (h\<lparr>objs := (objs h)(refs ! r ! c := t)\<rparr>) refs = (view h refs)[r := (view h refs ! r)[c := t]]"
proof (rule nth_equalityI)
  show "length (view (h\<lparr>objs := (objs h)(refs ! r ! c := t)\<rparr>) refs)
      = length ((view h refs)[r := (view h refs ! r)[c := t]])" by (simp add: view_def)
  fix i assume "i < length (view (h\<lparr>objs := (objs h)(refs ! r ! c := t)\<rparr>) refs)"
  then have i: "i < length refs" by (simp add: view_def)
  show "view (h\<lparr>objs := (objs h)(refs ! r ! c := t)\<rparr>) refs ! i
      = (view h refs)[r := (view h refs ! r)[c := t]] ! i"
  proof (rule nth_equalityI)
    show "length (view (h\<lparr>objs := (objs h)(refs ! r ! c := t)\<rparr>) refs ! i)
        = length ((view h refs)[r := (view h refs ! r)[c := t]] ! i)"
      using i r by (simp add: view_def nth_list_update)
    fix j assume "j < length (view (h\<lparr>objs := (objs h)(refs ! r ! c := t)\<rparr>) refs ! i)"
    then have j: "j < length (refs ! i)" using i by (simp add: view_def)
    have "refs ! i ! j = refs ! r ! c \<longleftrightarrow> i = r \<and> j = c"
      using distinct_concat_nth [OF d i j r c] by auto
    then show "view (h\<lparr>objs := (objs h)(refs ! r ! c := t)\<rparr>) refs ! i ! j
        = (view h refs)[r := (view h refs ! r)[c := t]] ! i ! j"
      using i j r c by (auto simp: view_def nth_list_update)
  qed
qed

lemma at2_view: "at2 (view h refs) r c = map_option (objs h) (at2 refs r c)"
  by (auto simp: at2_def at_def view_def)

lemma writeState_sim:
  assumes d: "distinct (concat refs)"
  shows "writeState f (view h refs) r c = map_sum id (\<lambda>h'. view h' refs) (writeState_store f refs h r c)"
proof (cases "at2 refs r c")
  case None
  then show ?thesis by (simp add: writeState_def writeState_store_def at2_view)
next
  case (Some a)
  then have rc: "r < length refs" "c < length (refs ! r)" and a: "a = refs ! r ! c"
    by (simp_all add: at2_Some)
  have v: "view h refs ! r ! c = objs h a" "view h refs ! r = map (objs h) (refs ! r)"
    using rc a by (simp_all add: view_def)
  show ?thesis
    using Some view_update [OF d rc, of h "(objs h a)\<lparr>state := f (state (objs h a))\<rparr>"]
    by (simp add: writeState_def writeState_store_def at2_view a v)
qed

lemma loopLTR_sim:
  assumes d: "distinct (concat refs)"
  shows "loopLTR f w (view h refs) cs = map_sum id (\<lambda>h'. view h' refs) (loopLTR_store f w refs h cs)"
proof (induction cs arbitrary: h)
  case Nil
  show ?case by simp
next
  case (Cons c cs)
  show ?case
    using writeState_sim [OF d, of f h "word_row w" "word_col w + c"] Cons.IH
    by (cases "writeState_store f refs h (word_row w) (word_col w + c)") simp_all
qed

lemma loopTTB_sim:
  assumes d: "distinct (concat refs)"
  shows "loopTTB f gb w (view h refs) rs = map_sum id (\<lambda>h'. view h' refs) (loopTTB_store f gb w refs h rs)"
proof (induction rs arbitrary: h)
  case Nil
  show ?case by simp
next
  case (Cons r rs)
  show ?case
    using writeState_sim [OF d, of f h "word_row w + r" "word_col w"] Cons.IH
    by (cases "writeState_store f refs h (word_row w + r) (word_col w)") simp_all
qed

lemma markWord_sim:
  assumes d: "distinct (concat refs)"
  shows "markWord f gb (view h refs) w = map_sum id (\<lambda>h'. view h' refs) (markWord_store f gb refs h w)"
  by (cases "direction w") (simp_all add: markWord_def markWord_store_def loopLTR_sim [OF d] loopTTB_sim [OF d])

lemma markWords_sim:
  assumes d: "distinct (concat refs)"
  shows "markWords f gb (view h refs) ws = map_sum id (\<lambda>h'. view h' refs) (markWords_store f gb refs h ws)"
proof (induction ws arbitrary: h)
  case Nil
  show ?case by simp
next
  case (Cons w ws)
  show ?case
    using markWord_sim [OF d, of f gb h w] Cons.IH
    by (cases "markWord_store f gb refs h w") simp_all
qed

lemma validateBoard_store_refines:
  assumes al: "allocated h (tile_refs b)"
  shows "validateBoard dictionary \<lparr>cursor = cursor_ref b, tiles = view h (tile_refs b)\<rparr>
       = map_sum id (\<lambda>(h', b', ok). (\<lparr>cursor = cursor_ref b', tiles = view h' (tile_refs b')\<rparr>, ok))
           (validateBoard_store dictionary h b)"
proof (cases "foundWords (view h (tile_refs b))")
  case (Inl e)
  then show ?thesis by (simp add: validateBoard_def validateBoard_store_def)
next
  case (Inr found)
  obtain validated h0 where cg: "copyGrid (tile_refs b) h = (validated, h0)"
    by (cases "copyGrid (tile_refs b) h")
  note cp = copyGrid_props [OF cg]
  from cp(1) have d: "distinct (concat validated)" by simp
  have l: "length (view h (tile_refs b)) = length (tile_refs b)" by (simp add: view_def)
  note i = cp(5) [OF al, symmetric]
  let ?valid = "filter (\<lambda>w. word w \<in> dictionary) found"
  let ?invalid = "filter (\<lambda>w. word w \<notin> dictionary) found"
  note m = markWords_sim [OF d, of markValid "length (tile_refs b)" h0 ?valid]
  show ?thesis
  proof (cases "markWords_store markValid (length (tile_refs b)) validated h0 ?valid")
    case (Inl e)
    with m Inr cg show ?thesis
      by (simp add: validateBoard_def validateBoard_store_def l i)
  next
    case h1: (Inr h1)
    note dd = markWords_sim [OF d, of demote "length (tile_refs b)" h1 ?invalid]
    show ?thesis
      using m dd Inr cg h1
      by (cases "markWords_store demote (length (tile_refs b)) validated h1 ?invalid")
        (simp_all add: validateBoard_def validateBoard_store_def l i)
  qed
qed

text \<open>
  Claim C5.  \<^verbatim>\<open>validateBoard\<close> does not mutate its input.  On the object store, for a board
  whose tile objects are all in use: whenever the call returns, every object that was in use
  before the call is what it was, so the input grid reads as before; the tiles of the returned
  board are objects allocated by the call; the cursor is the same; and the returned grid has the
  shape of the input grid and at every position a tile with the id, row, column and letter of
  the input tile there, hence at most the state differs.  On a grid that meets the grid
  invariant the call does return.
\<close>

theorem validateBoard_leaves_input:
  assumes "allocated h (tile_refs b)"
  shows "(\<forall>h' b' ok. validateBoard_store dictionary h b = Inr (h', b', ok) \<longrightarrow>
            (\<forall>a<fresh h. objs h' a = objs h a) \<and>
            view h' (tile_refs b) = view h (tile_refs b) \<and>
            (\<forall>a\<in>set (concat (tile_refs b')). fresh h \<le> a) \<and>
            cursor_ref b' = cursor_ref b \<and>
            sameGrid (view h (tile_refs b)) (view h' (tile_refs b'))) \<and>
         (wellFormed (view h (tile_refs b)) \<longrightarrow>
            (\<exists>h' b' ok. validateBoard_store dictionary h b = Inr (h', b', ok)))"
proof (intro conjI allI impI)
  fix h' b' ok assume v: "validateBoard_store dictionary h b = Inr (h', b', ok)"
  note f = validateBoard_store_frame [OF assms v]
  from f(1) show "\<And>a. a < fresh h \<Longrightarrow> objs h' a = objs h a" by blast
  from f(2) show "view h' (tile_refs b) = view h (tile_refs b)" .
  from f(5) show "\<forall>a\<in>set (concat (tile_refs b')). fresh h \<le> a" .
  from f(3) show "cursor_ref b' = cursor_ref b" .
  from f(4) show "sameGrid (view h (tile_refs b)) (view h' (tile_refs b'))" .
next
  assume wf: "wellFormed (view h (tile_refs b))"
  let ?B = "\<lparr>cursor = cursor_ref b, tiles = view h (tile_refs b)\<rparr>"
  from wf have "wellFormed (tiles ?B)" by simp
  from validateBoard_total [OF this, of dictionary] obtain B' ok where "validateBoard dictionary ?B = Inr (B', ok)"
    by blast
  with validateBoard_store_refines [OF assms, of dictionary]
  show "\<exists>h' b' ok. validateBoard_store dictionary h b = Inr (h', b', ok)"
    by (cases "validateBoard_store dictionary h b") auto
qed

theorem validateBoard_leaves_input_witness:
  "allocated (mkStore [''AB'', ''..'']) (tile_refs (mkBoardRef [''AB'', ''..''])) \<and>
   wellFormed (view (mkStore [''AB'', ''..'']) (tile_refs (mkBoardRef [''AB'', ''..'']))) \<and>
   tile_refs (mkBoardRef [''AB'', ''..'']) = [[0, 1], [2, 3]] \<and>
   (\<exists>h' b' ok. validateBoard_store {''ab''} (mkStore [''AB'', ''..'']) (mkBoardRef [''AB'', ''..'']) = Inr (h', b', ok) \<and>
      view h' [[0, 1], [2, 3]] = view (mkStore [''AB'', ''..'']) [[0, 1], [2, 3]] \<and>
      tile_refs b' = [[4, 5], [6, 7]] \<and>
      map (map state) (view h' (tile_refs b')) = [[VALID, VALID], [IDLE, IDLE]] \<and>
      map (map state) (view h' [[0, 1], [2, 3]]) = [[IDLE, IDLE], [IDLE, IDLE]])"
proof -
  let ?h = "mkStore [''AB'', ''..'']"
  let ?b = "mkBoardRef [''AB'', ''..'']"
  have h1: "allocated ?h (tile_refs ?b)" by code_simp
  have h2: "wellFormed (view ?h (tile_refs ?b))" by code_simp
  have r: "tile_refs ?b = [[0, 1], [2, 3]]" by code_simp
  have s0: "map (map state) (view ?h [[0, 1], [2, 3]]) = [[IDLE, IDLE], [IDLE, IDLE]]" by code_simp
  have e: "map_sum id (\<lambda>(h', b', ok). (tile_refs b', map (map state) (view h' (tile_refs b'))))
             (validateBoard_store {''ab''} ?h ?b)
         = Inr ([[4, 5], [6, 7]], [[VALID, VALID], [IDLE, IDLE]])" by code_simp
  note t = validateBoard_leaves_input [OF h1, of "{''ab''}"]
  from t [THEN conjunct2] h2 obtain h' b' ok where v: "validateBoard_store {''ab''} ?h ?b = Inr (h', b', ok)"
    by blast
  with t [THEN conjunct1] have "view h' (tile_refs ?b) = view ?h (tile_refs ?b)" by blast
  then have same: "view h' [[0, 1], [2, 3]] = view ?h [[0, 1], [2, 3]]" unfolding r .
  from e have e': "(tile_refs b', map (map state) (view h' (tile_refs b'))) =
      ([[4, 5], [6, 7]], [[VALID, VALID], [IDLE, IDLE]])"
    unfolding v by (simp only: map_sum.simps case_prod_conv sum.inject)
  from arg_cong [OF e', of fst] have n: "tile_refs b' = [[4, 5], [6, 7]]"
    by (simp only: fst_conv)
  from arg_cong [OF e', of snd]
  have st: "map (map state) (view h' (tile_refs b')) = [[VALID, VALID], [IDLE, IDLE]]"
    by (simp only: snd_conv)
  show ?thesis
    by (intro conjI h1 h2 r, rule exI [of _ h'], rule exI [of _ b'], rule exI [of _ ok])
      (simp only: v same n st [unfolded n] s0 simp_thms)
qed

end
